theory Spec2Isabelle
  imports Complex_Main "HOL-Library.Finite_Map"
begin

section \<open>The program: \<^verbatim>\<open>topological_sort.py\<close>\<close>

text \<open>
  The module has one class, \<^verbatim>\<open>DirectedGraph\<close>, and the functions \<^verbatim>\<open>random_dag\<close>,
  \<^verbatim>\<open>is_topological_sort\<close>, \<^verbatim>\<open>kahns_algo\<close> and \<^verbatim>\<open>topological_sort\<close>.

  Conventions of the embedding:
  \<^item> a Python \<^verbatim>\<open>dict\<close> is a finite map (\<open>fmap\<close>): \<open>fmlookup\<close> reads a key, \<open>fmupd\<close> stores one;
  \<^item> a Python \<^verbatim>\<open>list\<close> is a HOL list in the same order: \<^verbatim>\<open>xs.append(x)\<close> is \<open>xs @ [x]\<close>,
    \<^verbatim>\<open>xs.pop()\<close> returns \<open>last xs\<close> and leaves \<open>butlast xs\<close>;
  \<^item> a Python \<^verbatim>\<open>set\<close> is a HOL set; where the code iterates over it, the order of the
    iteration (which Python leaves unspecified) is a parameter of the model;
  \<^item> a raised exception is the \<open>Inl\<close> of a sum; a method that mutates the object returns
    the object's state after the call, on the raising path as well.
\<close>

subsection \<open>Exceptions\<close>

text \<open>
  The source raises plain \<^verbatim>\<open>Exception\<close> objects, told apart by their message:
  \<^verbatim>\<open>"Graph already contains edge."\<close> (\<open>DuplicateEdgeError\<close>) and \<^verbatim>\<open>"Graph contains a cycle"\<close>
  (\<open>CycleDetectedError\<close>). A subscript \<^verbatim>\<open>d[k]\<close> on a missing key raises \<open>KeyError\<close>, and
  \<^verbatim>\<open>d.get(k).append(x)\<close> on a missing key raises \<open>AttributeError\<close> (\<^verbatim>\<open>None\<close> has no
  \<^verbatim>\<open>append\<close>).
\<close>

datatype error = DuplicateEdgeError | CycleDetectedError | KeyError | AttributeError

subsection \<open>DirectedGraph\<close>

record 'a DirectedGraph =
  edges :: "('a \<times> 'a) list"
  successors :: "('a, 'a list) fmap"
  predecessors :: "('a, 'a list) fmap"
  nodes :: "'a set"

text \<open>\<^verbatim>\<open>__init__\<close>\<close>

definition DirectedGraph_init :: "'a DirectedGraph" where
  "DirectedGraph_init =
     \<lparr>edges = [], successors = fmempty, predecessors = fmempty, nodes = {}\<rparr>"

text \<open>
  \<^verbatim>\<open>add_edge\<close>: the two \<^verbatim>\<open>if ... not in ...\<close> statements run before the duplicate test, so
  the state returned with \<open>DuplicateEdgeError\<close> is the state after them.
\<close>

definition add_edge :: "'a DirectedGraph \<Rightarrow> 'a \<Rightarrow> 'a \<Rightarrow> (error + unit) \<times> 'a DirectedGraph" where
  "add_edge g u v =
     (let succ1 = (case fmlookup (successors g) u of
                     None \<Rightarrow> fmupd u [] (successors g)
                   | Some _ \<Rightarrow> successors g);
          pred1 = (case fmlookup (predecessors g) v of
                     None \<Rightarrow> fmupd v [] (predecessors g)
                   | Some _ \<Rightarrow> predecessors g);
          g1 = g\<lparr>successors := succ1, predecessors := pred1\<rparr>
      in case fmlookup succ1 u of
           None \<Rightarrow> (Inl KeyError, g1)
         | Some su \<Rightarrow>
             if v \<in> set su then (Inl DuplicateEdgeError, g1)
             else
               (let g2 = g1\<lparr>edges := edges g1 @ [(u, v)]\<rparr>;
                    g3 = g2\<lparr>successors := fmupd u (su @ [v]) succ1\<rparr>
                in case fmlookup pred1 v of
                     None \<Rightarrow> (Inl AttributeError, g3)
                   | Some pv \<Rightarrow>
                       (Inr (),
                        g3\<lparr>predecessors := fmupd v (pv @ [u]) pred1,
                           nodes := insert v (insert u (nodes g3))\<rparr>)))"

definition get_successors :: "'a DirectedGraph \<Rightarrow> 'a \<Rightarrow> 'a list" where
  "get_successors g u = (case fmlookup (successors g) u of None \<Rightarrow> [] | Some l \<Rightarrow> l)"

definition get_predecessors :: "'a DirectedGraph \<Rightarrow> 'a \<Rightarrow> 'a list" where
  "get_predecessors g u = (case fmlookup (predecessors g) u of None \<Rightarrow> [] | Some l \<Rightarrow> l)"

definition get_nodes :: "'a DirectedGraph \<Rightarrow> 'a set" where
  "get_nodes g = nodes g"

definition get_edges :: "'a DirectedGraph \<Rightarrow> ('a \<times> 'a) list" where
  "get_edges g = edges g"

text \<open>
  A client builds a graph by constructing it and calling \<^verbatim>\<open>add_edge\<close> some number of times;
  a call that raises leaves the object in use (the driver wraps its calls in
  \<^verbatim>\<open>try: ... except: pass\<close>). \<open>graph_of_calls cs\<close> is the state after the calls \<open>cs\<close>, in
  order, whether they returned or raised: the states a \<^verbatim>\<open>DirectedGraph\<close> object can be in.
\<close>

definition graph_of_calls :: "('a \<times> 'a) list \<Rightarrow> 'a DirectedGraph" where
  "graph_of_calls cs = foldl (\<lambda>g (u, v). snd (add_edge g u v)) DirectedGraph_init cs"

subsection \<open>random\_dag\<close>

text \<open>
  The random source is the sequence \<open>rnd\<close> of the values that the successive calls of
  \<^verbatim>\<open>random()\<close> return; the state of the loops is the graph and the number of draws made so
  far. \<^verbatim>\<open>range(u+1, n_nodes)\<close> is \<open>[u + 1..n_nodes - 1]\<close>.
\<close>

fun random_dag_inner ::
  "real \<Rightarrow> (nat \<Rightarrow> real) \<Rightarrow> int \<Rightarrow> int list \<Rightarrow> int DirectedGraph \<times> nat
    \<Rightarrow> error + int DirectedGraph \<times> nat" where
  "random_dag_inner edge_threshold rnd u [] s = Inr s"
| "random_dag_inner edge_threshold rnd u (v # vs) (dag, k) =
     (if rnd k > edge_threshold then
        (case add_edge dag u v of
           (Inl e, _) \<Rightarrow> Inl e
         | (Inr _, dag') \<Rightarrow> random_dag_inner edge_threshold rnd u vs (dag', Suc k))
      else random_dag_inner edge_threshold rnd u vs (dag, Suc k))"

fun random_dag_outer ::
  "real \<Rightarrow> (nat \<Rightarrow> real) \<Rightarrow> int \<Rightarrow> int list \<Rightarrow> int DirectedGraph \<times> nat
    \<Rightarrow> error + int DirectedGraph \<times> nat" where
  "random_dag_outer edge_threshold rnd n_nodes [] s = Inr s"
| "random_dag_outer edge_threshold rnd n_nodes (u # us) s =
     (case random_dag_inner edge_threshold rnd u [u + 1..n_nodes - 1] s of
        Inl e \<Rightarrow> Inl e
      | Inr s' \<Rightarrow> random_dag_outer edge_threshold rnd n_nodes us s')"

definition random_dag :: "int \<Rightarrow> real \<Rightarrow> (nat \<Rightarrow> real) \<Rightarrow> error + int DirectedGraph" where
  "random_dag n_nodes edge_threshold rnd =
     (case random_dag_outer edge_threshold rnd n_nodes [0..n_nodes - 1] (DirectedGraph_init, 0) of
        Inl e \<Rightarrow> Inl e
      | Inr (dag, _) \<Rightarrow> Inr dag)"

subsection \<open>is\_topological\_sort\<close>

text \<open>
  The dict comprehension \<^verbatim>\<open>{v: i for (i, v) in enumerate(sequence)}\<close> stores the pairs in
  order, so a later occurrence of a node overwrites an earlier one.
\<close>

definition index_of :: "'a list \<Rightarrow> ('a, nat) fmap" where
  "index_of sequence = fold (\<lambda>(i, v) index. fmupd v i index) (enumerate 0 sequence) fmempty"

text \<open>
  \<^verbatim>\<open>all(index[u] < index[v] for (u, v) in graph.get_edges())\<close>: \<^verbatim>\<open>all\<close> stops at the first
  false element, and each subscript raises \<open>KeyError\<close> on a missing key.
\<close>

fun all_edges_ordered :: "('a, nat) fmap \<Rightarrow> ('a \<times> 'a) list \<Rightarrow> error + bool" where
  "all_edges_ordered index [] = Inr True"
| "all_edges_ordered index ((u, v) # es) =
     (case fmlookup index u of
        None \<Rightarrow> Inl KeyError
      | Some iu \<Rightarrow>
          (case fmlookup index v of
             None \<Rightarrow> Inl KeyError
           | Some iv \<Rightarrow> if iu < iv then all_edges_ordered index es else Inr False))"

text \<open>
  The docstring types the argument \<^verbatim>\<open>sequence\<close> as \<^verbatim>\<open>iterable[node]\<close>, and the function
  iterates it twice: \<^verbatim>\<open>set(sequence)\<close> on line 92, \<^verbatim>\<open>enumerate(sequence)\<close> on line 94. A
  container (\<open>Sequence xs\<close>: a list, a tuple) yields its elements on every pass; a one-shot
  iterator (\<open>Iterator xs\<close>: a generator, \<^verbatim>\<open>iter(xs)\<close>) yields them on the first pass and
  nothing on a later one.
\<close>

datatype 'a iterable = Sequence "'a list" | Iterator "'a list"

fun first_pass :: "'a iterable \<Rightarrow> 'a list" where
  "first_pass (Sequence xs) = xs"
| "first_pass (Iterator xs) = xs"

fun second_pass :: "'a iterable \<Rightarrow> 'a list" where
  "second_pass (Sequence xs) = xs"
| "second_pass (Iterator xs) = []"

definition is_topological_sort :: "'a DirectedGraph \<Rightarrow> 'a iterable \<Rightarrow> error + bool" where
  "is_topological_sort graph sequence =
     (if set (first_pass sequence) \<noteq> get_nodes graph then Inr False
      else all_edges_ordered (index_of (second_pass sequence)) (get_edges graph))"

subsection \<open>kahns\_algo\<close>

text \<open>
  The first loop, \<^verbatim>\<open>for u in graph.get_nodes()\<close>, over the nodes in the order \<open>us\<close>.
\<close>

fun kahns_algo_init ::
  "'a DirectedGraph \<Rightarrow> 'a list \<Rightarrow> ('a, int) fmap \<times> 'a list \<Rightarrow> ('a, int) fmap \<times> 'a list" where
  "kahns_algo_init graph [] (degrees, zero_nodes) = (degrees, zero_nodes)"
| "kahns_algo_init graph (u # us) (degrees, zero_nodes) =
     (let pred = get_predecessors graph u;
          degrees' = fmupd u (int (length pred)) degrees
      in kahns_algo_init graph us
           (degrees', if length pred = 0 then zero_nodes @ [u] else zero_nodes))"

text \<open>The inner loop, \<^verbatim>\<open>for v in graph.get_successors(u)\<close>.\<close>

fun kahns_algo_relax ::
  "'a list \<Rightarrow> ('a, int) fmap \<times> 'a list \<Rightarrow> error + ('a, int) fmap \<times> 'a list" where
  "kahns_algo_relax [] (degrees, zero_nodes) = Inr (degrees, zero_nodes)"
| "kahns_algo_relax (v # vs) (degrees, zero_nodes) =
     (case fmlookup degrees v of
        None \<Rightarrow> Inl KeyError
      | Some d \<Rightarrow>
          kahns_algo_relax vs
            (fmupd v (d - 1) degrees, if d - 1 = 0 then zero_nodes @ [v] else zero_nodes))"

text \<open>
  The \<^verbatim>\<open>while len(zero_nodes) > 0\<close> loop. It ends on every input: a node is appended to
  \<open>zero_nodes\<close> only when its entry of \<open>degrees\<close> steps from 1 to 0, and entries only
  decrease, so the length of \<open>zero_nodes\<close> plus the number of keys whose entry is at least
  1 (\<open>pending\<close>; finite, a dict has finitely many keys) decreases in every iteration.
\<close>

definition pending :: "('a, int) fmap \<Rightarrow> 'a set" where
  "pending degrees = {v. \<exists>d. fmlookup degrees v = Some d \<and> 1 \<le> d}"

lemma finite_pending: "finite (pending degrees)"
proof (rule finite_subset)
  show "pending degrees \<subseteq> fmdom' degrees"
    by (auto simp: pending_def fmlookup_dom'_iff)
  show "finite (fmdom' degrees)" by simp
qed

lemma pending_decrement:
  assumes "fmlookup degrees v = Some d"
  shows "pending (fmupd v (d - 1) degrees) = (if d = 1 then pending degrees - {v} else pending degrees)"
  using assms by (auto simp: pending_def)

lemma pending_mem_one: "fmlookup degrees v = Some 1 \<Longrightarrow> v \<in> pending degrees"
  by (simp add: pending_def)

lemma kahns_algo_relax_measure:
  "kahns_algo_relax vs (degrees, zero_nodes) = Inr (degrees', zero_nodes') \<Longrightarrow>
   length zero_nodes' + card (pending degrees') = length zero_nodes + card (pending degrees)"
proof (induction vs arbitrary: degrees zero_nodes)
  case Nil
  then show ?case by simp
next
  case (Cons v vs)
  then obtain d where d: "fmlookup degrees v = Some d"
    by (cases "fmlookup degrees v") auto
  show ?case
  proof (cases "d = 1")
    case True
    with Cons.prems d have
      "kahns_algo_relax vs (fmupd v 0 degrees, zero_nodes @ [v]) = Inr (degrees', zero_nodes')"
      by simp
    from Cons.IH [OF this] have
      "length zero_nodes' + card (pending degrees') =
       Suc (length zero_nodes) + card (pending (fmupd v 0 degrees))"
      by simp
    moreover have "pending (fmupd v 0 degrees) = pending degrees - {v}"
      using pending_decrement [OF d] True by simp
    moreover have "v \<in> pending degrees" using d True by (simp add: pending_mem_one)
    then have "Suc (card (pending degrees - {v})) = card (pending degrees)"
      by (rule card_Suc_Diff1 [OF finite_pending])
    ultimately show ?thesis by simp
  next
    case False
    with Cons.prems d have
      "kahns_algo_relax vs (fmupd v (d - 1) degrees, zero_nodes) = Inr (degrees', zero_nodes')"
      by simp
    from Cons.IH [OF this] show ?thesis
      using pending_decrement [OF d] False by simp
  qed
qed

function kahns_algo_while ::
  "'a DirectedGraph \<Rightarrow> ('a, int) fmap \<Rightarrow> 'a list \<Rightarrow> 'a list \<Rightarrow> error + 'a list" where
  "kahns_algo_while graph degrees zero_nodes top_sort =
     (if length zero_nodes > 0 then
        (let u = last zero_nodes;
             zero_nodes1 = butlast zero_nodes;
             top_sort1 = top_sort @ [u]
         in case kahns_algo_relax (get_successors graph u) (degrees, zero_nodes1) of
              Inl e \<Rightarrow> Inl e
            | Inr (degrees', zero_nodes') \<Rightarrow>
                kahns_algo_while graph degrees' zero_nodes' top_sort1)
      else Inr top_sort)"
  by pat_completeness auto
termination
proof (relation "measure (\<lambda>(graph, degrees, zero_nodes, top_sort).
                   length zero_nodes + card (pending degrees))", goal_cases)
  case 1
  show ?case by simp
next
  case (2 graph degrees zero_nodes top_sort u zero_nodes1 top_sort1 s degrees' zero_nodes')
  then have "kahns_algo_relax (get_successors graph (last zero_nodes)) (degrees, butlast zero_nodes)
               = Inr (degrees', zero_nodes')"
    by simp
  from kahns_algo_relax_measure [OF this] 2(1) show ?case by simp
qed

declare kahns_algo_while.simps [simp del]

text \<open>
  \<^verbatim>\<open>kahns_algo\<close>, lines 114 to 130: the two loops, giving the value of \<^verbatim>\<open>top_sort\<close> when the
  \<^verbatim>\<open>while\<close> loop exits. \<open>node_order\<close> is the order in which
  \<^verbatim>\<open>for u in graph.get_nodes()\<close> visits the node set.
\<close>

definition kahns_algo_loops :: "'a list \<Rightarrow> 'a DirectedGraph \<Rightarrow> error + 'a list" where
  "kahns_algo_loops node_order graph =
     (case kahns_algo_init graph node_order (fmempty, []) of
        (degrees, zero_nodes) \<Rightarrow> kahns_algo_while graph degrees zero_nodes [])"

text \<open>\<^verbatim>\<open>kahns_algo\<close>: the loops, then the length test of lines 132 to 134.\<close>

definition kahns_algo :: "'a list \<Rightarrow> 'a DirectedGraph \<Rightarrow> error + 'a list" where
  "kahns_algo node_order graph =
     (case kahns_algo_loops node_order graph of
        Inl e \<Rightarrow> Inl e
      | Inr top_sort \<Rightarrow>
          if length top_sort < card (get_nodes graph) then Inl CycleDetectedError
          else Inr top_sort)"

definition topological_sort :: "'a list \<Rightarrow> 'a DirectedGraph \<Rightarrow> error + 'a list" where
  "topological_sort node_order graph = kahns_algo node_order graph"

section \<open>Graphs built through the class\<close>

text \<open>
  \<open>wf_graph\<close> collects what holds of every state that \<^verbatim>\<open>__init__\<close> and \<^verbatim>\<open>add_edge\<close> can
  produce: the adjacency dicts are the edge list read by source and by target.
\<close>

text \<open>The targets of the edges that leave \<open>u\<close>, and the sources of those that enter \<open>v\<close>,
  in the order of the edge list.\<close>

definition out_list :: "('a \<times> 'a) list \<Rightarrow> 'a \<Rightarrow> 'a list" where
  "out_list es u = map snd (filter (\<lambda>e. fst e = u) es)"

definition in_list :: "('a \<times> 'a) list \<Rightarrow> 'a \<Rightarrow> 'a list" where
  "in_list es v = map fst (filter (\<lambda>e. snd e = v) es)"

definition wf_graph :: "'a DirectedGraph \<Rightarrow> bool" where
  "wf_graph g \<longleftrightarrow>
     distinct (edges g) \<and>
     nodes g = fst ` set (edges g) \<union> snd ` set (edges g) \<and>
     (\<forall>u. get_successors g u = out_list (edges g) u) \<and>
     (\<forall>v. get_predecessors g v = in_list (edges g) v) \<and>
     fst ` set (edges g) \<subseteq> fmdom' (successors g) \<and>
     snd ` set (edges g) \<subseteq> fmdom' (predecessors g)"

lemma set_out_list: "set (out_list es u) = {v. (u, v) \<in> set es}"
  by (force simp: out_list_def)

lemma set_in_list: "set (in_list es v) = {u. (u, v) \<in> set es}"
  by (force simp: in_list_def)

lemma distinct_out_list: "distinct es \<Longrightarrow> distinct (out_list es u)"
  by (auto simp: out_list_def distinct_map inj_on_def prod_eq_iff)

lemma distinct_in_list: "distinct es \<Longrightarrow> distinct (in_list es v)"
  by (auto simp: in_list_def distinct_map inj_on_def prod_eq_iff)

lemma out_list_snoc:
  "out_list (es @ [(u, v)]) w = (if w = u then out_list es w @ [v] else out_list es w)"
  by (simp add: out_list_def)

lemma in_list_snoc:
  "in_list (es @ [(u, v)]) w = (if w = v then in_list es w @ [u] else in_list es w)"
  by (simp add: in_list_def)

lemma add_edge_new:
  assumes "v \<notin> set (get_successors g u)"
  shows "add_edge g u v =
           (Inr (),
            \<lparr>edges = edges g @ [(u, v)],
             successors = fmupd u (get_successors g u @ [v]) (successors g),
             predecessors = fmupd v (get_predecessors g v @ [u]) (predecessors g),
             nodes = insert v (insert u (nodes g))\<rparr>)"
  using assms
  by (cases g) (auto simp: add_edge_def get_successors_def get_predecessors_def Let_def
      split: option.splits)

lemma add_edge_duplicate:
  assumes "v \<in> set (get_successors g u)"
  shows "fst (add_edge g u v) = Inl DuplicateEdgeError"
proof (cases "fmlookup (successors g) u")
  case None
  with assms show ?thesis by (simp add: get_successors_def)
next
  case (Some su)
  with assms show ?thesis
    by (simp add: add_edge_def get_successors_def Let_def split: option.splits)
qed

lemma add_edge_duplicate_state:
  assumes "v \<in> set (get_successors g u)" and "v \<in> fmdom' (predecessors g)"
  shows "add_edge g u v = (Inl DuplicateEdgeError, g)"
proof (cases "fmlookup (successors g) u")
  case None
  with assms show ?thesis by (simp add: get_successors_def)
next
  case (Some su)
  moreover obtain pv where "fmlookup (predecessors g) v = Some pv"
    using assms(2) by (auto simp: fmlookup_dom'_iff)
  ultimately show ?thesis
    using assms(1) by (simp add: add_edge_def get_successors_def Let_def)
qed

lemma wf_graph_init: "wf_graph DirectedGraph_init"
  by (simp add: wf_graph_def DirectedGraph_init_def get_successors_def get_predecessors_def
      out_list_def in_list_def)

lemma wf_graph_successors: "wf_graph g \<Longrightarrow> set (get_successors g u) = {v. (u, v) \<in> set (edges g)}"
  by (simp add: wf_graph_def set_out_list)

lemma wf_graph_predecessors: "wf_graph g \<Longrightarrow> set (get_predecessors g v) = {u. (u, v) \<in> set (edges g)}"
  by (simp add: wf_graph_def set_in_list)

lemma wf_graph_add_edge:
  assumes "wf_graph g"
  shows "wf_graph (snd (add_edge g u v))"
proof (cases "v \<in> set (get_successors g u)")
  case True
  then have "(u, v) \<in> set (edges g)"
    using wf_graph_successors [OF assms] by simp
  then have "v \<in> fmdom' (predecessors g)"
    using assms by (force simp: wf_graph_def)
  with True show ?thesis
    using assms by (simp add: add_edge_duplicate_state)
next
  case False
  then have new: "(u, v) \<notin> set (edges g)"
    using wf_graph_successors [OF assms] by simp
  let ?g = "snd (add_edge g u v)"
  have e: "edges ?g = edges g @ [(u, v)]"
    and n: "nodes ?g = insert v (insert u (nodes g))"
    and s: "successors ?g = fmupd u (get_successors g u @ [v]) (successors g)"
    and p: "predecessors ?g = fmupd v (get_predecessors g v @ [u]) (predecessors g)"
    by (simp_all add: add_edge_new [OF False])
  have "distinct (edges ?g)"
    using assms new by (simp add: e wf_graph_def)
  moreover have "nodes ?g = fst ` set (edges ?g) \<union> snd ` set (edges ?g)"
    using assms by (auto simp: e n wf_graph_def)
  moreover have "get_successors ?g w = out_list (edges ?g) w" for w
    using assms by (simp add: e s out_list_snoc wf_graph_def get_successors_def)
  moreover have "get_predecessors ?g w = in_list (edges ?g) w" for w
    using assms by (simp add: e p in_list_snoc wf_graph_def get_predecessors_def)
  moreover have "fst ` set (edges ?g) \<subseteq> fmdom' (successors ?g)"
    using assms by (auto simp: e s wf_graph_def)
  moreover have "snd ` set (edges ?g) \<subseteq> fmdom' (predecessors ?g)"
    using assms by (auto simp: e p wf_graph_def)
  ultimately show ?thesis
    by (simp add: wf_graph_def)
qed

lemma graph_of_calls_snoc:
  "graph_of_calls (cs @ [(u, v)]) = snd (add_edge (graph_of_calls cs) u v)"
  by (simp add: graph_of_calls_def)

lemma wf_graph_of_calls: "wf_graph (graph_of_calls cs)"
proof (induction cs rule: rev_induct)
  case Nil
  show ?case by (simp add: graph_of_calls_def wf_graph_init)
next
  case (snoc c cs)
  obtain u v where "c = (u, v)" by (cases c)
  with snoc show ?case by (simp add: graph_of_calls_snoc wf_graph_add_edge)
qed

lemma wf_graph_distinct_successors: "wf_graph g \<Longrightarrow> distinct (get_successors g u)"
  by (simp add: wf_graph_def distinct_out_list)

lemma wf_graph_distinct_predecessors: "wf_graph g \<Longrightarrow> distinct (get_predecessors g v)"
  by (simp add: wf_graph_def distinct_in_list)

lemma wf_graph_nodes:
  assumes "wf_graph g" and "(u, v) \<in> set (edges g)"
  shows "u \<in> nodes g" and "v \<in> nodes g"
proof -
  have n: "nodes g = fst ` set (edges g) \<union> snd ` set (edges g)"
    using assms(1) by (simp add: wf_graph_def)
  have "fst (u, v) \<in> fst ` set (edges g)" using assms(2) by (rule imageI)
  then show "u \<in> nodes g" by (simp add: n)
  have "snd (u, v) \<in> snd ` set (edges g)" using assms(2) by (rule imageI)
  then show "v \<in> nodes g" by (simp add: n)
qed

lemma wf_graph_finite_nodes: "wf_graph g \<Longrightarrow> finite (nodes g)"
  by (simp add: wf_graph_def)

lemma wf_graph_successors_nodes:
  assumes "wf_graph g"
  shows "set (get_successors g u) \<subseteq> nodes g"
proof
  fix v assume "v \<in> set (get_successors g u)"
  then have "(u, v) \<in> set (edges g)" by (simp add: wf_graph_successors [OF assms])
  then show "v \<in> nodes g" by (rule wf_graph_nodes(2) [OF assms])
qed

lemma wf_graph_predecessors_nodes:
  assumes "wf_graph g"
  shows "set (get_predecessors g v) \<subseteq> nodes g"
proof
  fix u assume "u \<in> set (get_predecessors g v)"
  then have "(u, v) \<in> set (edges g)" by (simp add: wf_graph_predecessors [OF assms])
  then show "u \<in> nodes g" by (rule wf_graph_nodes(1) [OF assms])
qed

lemma wf_graph_pred_succ:
  "wf_graph g \<Longrightarrow> u \<in> set (get_predecessors g v) \<longleftrightarrow> v \<in> set (get_successors g u)"
  by (simp add: wf_graph_successors wf_graph_predecessors)


text \<open>The number of predecessors of \<open>v\<close> that are not in the output \<open>T\<close> yet.\<close>

definition remaining :: "'a DirectedGraph \<Rightarrow> 'a list \<Rightarrow> 'a \<Rightarrow> nat" where
  "remaining g T v = length (filter (\<lambda>w. w \<notin> set T) (get_predecessors g v))"

lemma remaining_Nil: "remaining g [] v = length (get_predecessors g v)"
  by (simp add: remaining_def)

lemma remaining_zero: "remaining g T v = 0 \<longleftrightarrow> set (get_predecessors g v) \<subseteq> set T"
  by (auto simp: remaining_def filter_empty_conv)

lemma filter_snoc_count:
  assumes "distinct ps" and "u \<notin> set T"
  shows "length (filter (\<lambda>w. w \<notin> set T) ps) =
         length (filter (\<lambda>w. w \<notin> set (T @ [u])) ps) + (if u \<in> set ps then 1 else 0)"
  using assms
proof (induction ps)
  case Nil
  show ?case by simp
next
  case (Cons p ps)
  then have IH: "length (filter (\<lambda>w. w \<notin> set T) ps) =
         length (filter (\<lambda>w. w \<notin> set (T @ [u])) ps) + (if u \<in> set ps then 1 else 0)"
    and p: "p \<notin> set ps"
    by simp_all
  show ?case
  proof (cases "p = u")
    case True
    with p Cons.prems(2) IH show ?thesis by simp
  next
    case False
    with IH show ?thesis by simp
  qed
qed

lemma remaining_snoc:
  assumes "wf_graph g" and "u \<notin> set T"
  shows "remaining g T v =
         remaining g (T @ [u]) v + (if v \<in> set (get_successors g u) then 1 else 0)"
  unfolding remaining_def
  using filter_snoc_count [OF wf_graph_distinct_predecessors [OF assms(1)] assms(2), of v]
  by (simp add: wf_graph_pred_succ [OF assms(1)])

lemma kahns_algo_init_zero_nodes:
  "snd (kahns_algo_init g us (D, Z)) = Z @ filter (\<lambda>u. get_predecessors g u = []) us"
  by (induction us arbitrary: D Z) (simp_all add: Let_def)

lemma kahns_algo_init_degrees:
  "fmlookup (fst (kahns_algo_init g us (D, Z))) v =
     (if v \<in> set us then Some (int (length (get_predecessors g v))) else fmlookup D v)"
  by (induction us arbitrary: D Z) (simp_all add: Let_def)

section \<open>Kahn's algorithm: loop invariants\<close>

text \<open>
  \<open>kahn_inv\<close> holds at the head of the \<^verbatim>\<open>while\<close> loop, for the dict \<open>D\<close> of degrees, the
  worklist \<open>Z\<close> and the output \<open>T\<close>: no node is twice in \<open>Z @ T\<close>, the entry of a node is
  the number of its predecessors outside \<open>T\<close>, the nodes with entry 0 are those of
  \<open>Z @ T\<close>, and the predecessors of each entry of \<open>T\<close> stand before it. \<open>relax_inv\<close> holds
  inside the \<^verbatim>\<open>for\<close> loop over the successors of the node just moved to \<open>T\<close>: the
  successors still to be visited (\<open>rest\<close>) have not been decremented yet.
\<close>

definition relax_inv ::
  "'a DirectedGraph \<Rightarrow> ('a, int) fmap \<Rightarrow> 'a list \<Rightarrow> 'a list \<Rightarrow> 'a list \<Rightarrow> bool" where
  "relax_inv g D Z T rest \<longleftrightarrow>
     distinct (Z @ T) \<and> set (Z @ T) \<subseteq> nodes g \<and>
     (\<forall>v\<in>nodes g. fmlookup D v =
        Some (int (remaining g T v + (if v \<in> set rest then 1 else 0)))) \<and>
     (\<forall>v\<in>nodes g. v \<in> set (Z @ T) \<longleftrightarrow>
        remaining g T v + (if v \<in> set rest then 1 else 0) = 0)"

definition kahn_inv ::
  "'a DirectedGraph \<Rightarrow> ('a, int) fmap \<Rightarrow> 'a list \<Rightarrow> 'a list \<Rightarrow> bool" where
  "kahn_inv g D Z T \<longleftrightarrow>
     relax_inv g D Z T [] \<and>
     (\<forall>i<length T. set (get_predecessors g (T ! i)) \<subseteq> set (take i T))"

lemma relax_inv_step:
  assumes inv: "relax_inv g D Z T (v # vs)" and v: "v \<in> nodes g" and nv: "v \<notin> set vs"
  shows "relax_inv g (fmupd v (int (remaining g T v)) D)
           (if remaining g T v = 0 then Z @ [v] else Z) T vs"
proof -
  from inv v have notin: "v \<notin> set (Z @ T)"
    unfolding relax_inv_def by fastforce
  have d: "distinct (Z @ T)" and s: "set (Z @ T) \<subseteq> nodes g"
    using inv by (simp_all add: relax_inv_def)
  have l: "fmlookup D x = Some (int (remaining g T x + (if x \<in> set (v # vs) then 1 else 0)))"
    and m: "x \<in> set (Z @ T) \<longleftrightarrow> remaining g T x + (if x \<in> set (v # vs) then 1 else 0) = 0"
    if "x \<in> nodes g" for x
    using inv that by (simp_all add: relax_inv_def)
  show ?thesis
    unfolding relax_inv_def
  proof (intro conjI ballI)
    show "distinct ((if remaining g T v = 0 then Z @ [v] else Z) @ T)"
      using d notin by auto
    show "set ((if remaining g T v = 0 then Z @ [v] else Z) @ T) \<subseteq> nodes g"
      using s v by auto
  next
    fix x assume x: "x \<in> nodes g"
    show "fmlookup (fmupd v (int (remaining g T v)) D) x =
            Some (int (remaining g T x + (if x \<in> set vs then 1 else 0)))"
      using l [OF x] nv by auto
  next
    fix x assume x: "x \<in> nodes g"
    show "x \<in> set ((if remaining g T v = 0 then Z @ [v] else Z) @ T) \<longleftrightarrow>
            remaining g T x + (if x \<in> set vs then 1 else 0) = 0"
    proof (cases "x = v")
      case True
      then show ?thesis using notin nv by auto
    next
      case False
      then show ?thesis using m [OF x] by auto
    qed
  qed
qed

lemma kahns_algo_relax_inv:
  assumes "relax_inv g D Z T vs" and "set vs \<subseteq> nodes g" and "distinct vs"
  shows "\<exists>D' Z'. kahns_algo_relax vs (D, Z) = Inr (D', Z') \<and> relax_inv g D' Z' T []"
  using assms
proof (induction vs arbitrary: D Z)
  case Nil
  then show ?case by simp
next
  case (Cons v vs)
  then have v: "v \<in> nodes g" and nv: "v \<notin> set vs" by simp_all
  from Cons.prems(1) v have look: "fmlookup D v = Some (int (remaining g T v) + 1)"
    by (simp add: relax_inv_def)
  have "relax_inv g (fmupd v (int (remaining g T v)) D)
          (if remaining g T v = 0 then Z @ [v] else Z) T vs"
    by (rule relax_inv_step [OF Cons.prems(1) v nv])
  from Cons.IH [OF this] Cons.prems(2,3) obtain D' Z' where
    "kahns_algo_relax vs (fmupd v (int (remaining g T v)) D,
        if remaining g T v = 0 then Z @ [v] else Z) = Inr (D', Z')"
    and "relax_inv g D' Z' T []"
    by auto
  with look show ?case by simp
qed

lemma kahn_inv_pop:
  assumes wf: "wf_graph g" and inv: "kahn_inv g D Z T" and ne: "Z \<noteq> []"
  shows "relax_inv g D (butlast Z) (T @ [last Z]) (get_successors g (last Z))"
    and "set (get_predecessors g (last Z)) \<subseteq> set T"
    and "last Z \<notin> set T"
proof -
  let ?u = "last Z"
  from ne have Z: "Z = butlast Z @ [?u]" by simp
  have d: "distinct (Z @ T)" and s: "set (Z @ T) \<subseteq> nodes g"
    using inv by (simp_all add: kahn_inv_def relax_inv_def)
  have l: "fmlookup D x = Some (int (remaining g T x))"
    and m: "x \<in> set (Z @ T) \<longleftrightarrow> remaining g T x = 0"
    if "x \<in> nodes g" for x
    using inv that by (simp_all add: kahn_inv_def relax_inv_def)
  have uZ: "?u \<in> set Z" using ne by simp
  then show uT: "?u \<notin> set T" using d by auto
  have un: "?u \<in> nodes g" using uZ s by auto
  show "set (get_predecessors g ?u) \<subseteq> set T"
    using m [OF un] uZ by (simp add: remaining_zero)
  have d': "distinct (butlast Z @ T @ [?u])"
    using d by (subst (asm) Z) auto
  have set_eq: "set (butlast Z @ T @ [?u]) = set (Z @ T)"
    by (subst (2) Z) auto
  show "relax_inv g D (butlast Z) (T @ [?u]) (get_successors g ?u)"
    unfolding relax_inv_def
  proof (intro conjI ballI)
    show "distinct (butlast Z @ T @ [?u])" by (rule d')
    show "set (butlast Z @ T @ [?u]) \<subseteq> nodes g" using s set_eq by simp
  next
    fix x assume x: "x \<in> nodes g"
    show "fmlookup D x = Some (int (remaining g (T @ [?u]) x +
            (if x \<in> set (get_successors g ?u) then 1 else 0)))"
      using l [OF x] remaining_snoc [OF wf uT, of x] by simp
  next
    fix x assume x: "x \<in> nodes g"
    show "x \<in> set (butlast Z @ T @ [?u]) \<longleftrightarrow>
            remaining g (T @ [?u]) x + (if x \<in> set (get_successors g ?u) then 1 else 0) = 0"
      using m [OF x] remaining_snoc [OF wf uT, of x] set_eq by simp
  qed
qed

lemma kahns_algo_while_inv:
  assumes "wf_graph g" and "kahn_inv g D Z T"
  shows "\<exists>T' D'. kahns_algo_while g D Z T = Inr T' \<and> kahn_inv g D' [] T'"
  using assms
proof (induction g D Z T rule: kahns_algo_while.induct)
  case (1 g D Z T)
  show ?case
  proof (cases "Z = []")
    case True
    with "1.prems" show ?thesis by (subst kahns_algo_while.simps) auto
  next
    case False
    let ?u = "last Z"
    note pop = kahn_inv_pop [OF "1.prems" False]
    obtain D1 Z1 where
      r: "kahns_algo_relax (get_successors g ?u) (D, butlast Z) = Inr (D1, Z1)"
      and ri: "relax_inv g D1 Z1 (T @ [?u]) []"
      using kahns_algo_relax_inv [OF pop(1) wf_graph_successors_nodes [OF "1.prems"(1)]
          wf_graph_distinct_successors [OF "1.prems"(1)]]
      by blast
    have ord: "\<forall>i<length T. set (get_predecessors g (T ! i)) \<subseteq> set (take i T)"
      using "1.prems"(2) by (simp add: kahn_inv_def)
    have "set (get_predecessors g ((T @ [?u]) ! i)) \<subseteq> set (take i (T @ [?u]))"
      if "i < length (T @ [?u])" for i
    proof (cases "i < length T")
      case True
      then show ?thesis using ord by (simp add: nth_append)
    next
      case False
      with that have "i = length T" by simp
      then show ?thesis using pop(2) by simp
    qed
    with ri have "kahn_inv g D1 Z1 (T @ [?u])"
      by (simp add: kahn_inv_def)
    from "1.IH" [OF _ refl refl refl r refl "1.prems"(1) this] False
    obtain T' D' where "kahns_algo_while g D1 Z1 (T @ [?u]) = Inr T'" and "kahn_inv g D' [] T'"
      by auto
    with False r show ?thesis
      by (subst kahns_algo_while.simps) auto
  qed
qed

lemma kahn_inv_initial:
  assumes wf: "wf_graph g" and ns: "set ns = nodes g" "distinct ns"
  shows "kahn_inv g (fst (kahns_algo_init g ns (fmempty, [])))
           (snd (kahns_algo_init g ns (fmempty, []))) []"
proof -
  let ?Z = "filter (\<lambda>u. get_predecessors g u = []) ns"
  have Z: "snd (kahns_algo_init g ns (fmempty, [])) = ?Z"
    by (simp add: kahns_algo_init_zero_nodes)
  have "distinct ?Z" using ns(2) by simp
  moreover have "set ?Z \<subseteq> nodes g" using ns(1) by auto
  moreover have "fmlookup (fst (kahns_algo_init g ns (fmempty, []))) v =
      Some (int (remaining g [] v + 0))" if "v \<in> nodes g" for v
    using that ns(1) by (simp add: kahns_algo_init_degrees remaining_Nil)
  moreover have "v \<in> set ?Z \<longleftrightarrow> remaining g [] v + 0 = 0" if "v \<in> nodes g" for v
    using that ns(1) by (simp add: remaining_Nil)
  ultimately show ?thesis
    unfolding kahn_inv_def relax_inv_def Z by simp
qed

section \<open>Kahn's algorithm: the output of the loops\<close>

text \<open>
  \<open>sorted_prefix g T\<close>: what the loops establish for their output \<open>T\<close>. It has no
  node twice, a node is in it exactly when all its predecessors are, and the predecessors
  of each entry stand before it.
\<close>

definition sorted_prefix :: "'a DirectedGraph \<Rightarrow> 'a list \<Rightarrow> bool" where
  "sorted_prefix g T \<longleftrightarrow>
     distinct T \<and> set T \<subseteq> nodes g \<and>
     (\<forall>v\<in>nodes g. v \<in> set T \<longleftrightarrow> set (get_predecessors g v) \<subseteq> set T) \<and>
     (\<forall>i<length T. set (get_predecessors g (T ! i)) \<subseteq> set (take i T))"

lemma kahn_inv_sorted_prefix: "kahn_inv g D [] T \<Longrightarrow> sorted_prefix g T"
  by (simp add: kahn_inv_def relax_inv_def sorted_prefix_def remaining_zero)

lemma kahns_algo_loops_sorted_prefix:
  assumes wf: "wf_graph g" and ns: "set ns = nodes g" "distinct ns"
  shows "\<exists>T. kahns_algo_loops ns g = Inr T \<and> sorted_prefix g T"
proof -
  obtain D Z where i: "kahns_algo_init g ns (fmempty, []) = (D, Z)"
    by (cases "kahns_algo_init g ns (fmempty, [])")
  have "kahn_inv g D Z []"
    using kahn_inv_initial [OF wf ns] i by simp
  from kahns_algo_while_inv [OF wf this] obtain T D' where
    "kahns_algo_while g D Z [] = Inr T" and "kahn_inv g D' [] T"
    by blast
  then show ?thesis
    using i by (auto simp: kahns_algo_loops_def dest: kahn_inv_sorted_prefix)
qed

text \<open>\<open>before T a b\<close>: \<open>a\<close> stands at an earlier position of the list \<open>T\<close> than \<open>b\<close>.\<close>

definition before :: "'a list \<Rightarrow> 'a \<Rightarrow> 'a \<Rightarrow> bool" where
  "before T a b \<longleftrightarrow> (\<exists>i j. i < j \<and> j < length T \<and> T ! i = a \<and> T ! j = b)"

lemma sorted_prefix_edge_before:
  assumes wf: "wf_graph g" and sp: "sorted_prefix g T"
    and e: "(a, b) \<in> set (edges g)" and b: "b \<in> set T"
  shows "before T a b"
proof -
  from b obtain j where j: "j < length T" "T ! j = b"
    by (auto simp: in_set_conv_nth)
  have "a \<in> set (get_predecessors g b)"
    using e by (simp add: wf_graph_predecessors [OF wf])
  moreover have "set (get_predecessors g (T ! j)) \<subseteq> set (take j T)"
    using sp j(1) by (simp add: sorted_prefix_def)
  ultimately have "a \<in> set (take j T)" using j(2) by auto
  then obtain i where "i < length (take j T)" "take j T ! i = a"
    by (auto simp: in_set_conv_nth)
  then have "i < j" "T ! i = a" using j(1) by simp_all
  with j show ?thesis unfolding before_def by blast
qed

lemma before_trans:
  assumes "distinct T" and "before T a b" and "before T b c"
  shows "before T a c"
proof -
  from assms(2) obtain i j where 1: "i < j" "j < length T" "T ! i = a" "T ! j = b"
    unfolding before_def by blast
  from assms(3) obtain j' k where 2: "j' < k" "k < length T" "T ! j' = b" "T ! k = c"
    unfolding before_def by blast
  have "j' < length T" using 2 by simp
  moreover have "T ! j = T ! j'" using 1 2 by simp
  ultimately have "j = j'"
    using nth_eq_iff_index_eq [OF assms(1) 1(2), of j'] by simp
  with 1 2 have "i < k" by simp
  with 1 2 show ?thesis unfolding before_def by blast
qed

lemma before_irrefl:
  assumes "distinct T"
  shows "\<not> before T a a"
proof
  assume "before T a a"
  then obtain i j where ij: "i < j" "j < length T" "T ! i = a" "T ! j = a"
    unfolding before_def by blast
  then have "i < length T" and "T ! i = T ! j" by simp_all
  then have "i = j"
    using nth_eq_iff_index_eq [OF assms, of i j] ij(2) by simp
  with ij(1) show False by simp
qed

lemma before_in_set: "before T a b \<Longrightarrow> a \<in> set T"
  unfolding before_def by (metis in_set_conv_nth less_trans)

lemma sorted_prefix_path_before:
  assumes wf: "wf_graph g" and sp: "sorted_prefix g T"
    and p: "(a, b) \<in> (set (edges g))\<^sup>+" and b: "b \<in> set T"
  shows "before T a b"
  using p b
proof (induction rule: trancl_induct)
  case (base y)
  then show ?case by (rule sorted_prefix_edge_before [OF wf sp])
next
  case (step y z)
  have yz: "before T y z" by (rule sorted_prefix_edge_before [OF wf sp step(2) step(4)])
  then have "y \<in> set T" by (rule before_in_set)
  then have "before T a y" by (rule step.IH)
  moreover have "distinct T" using sp by (simp add: sorted_prefix_def)
  ultimately show ?case using yz by (blast intro: before_trans)
qed

text \<open>A node on a cycle never enters the output.\<close>

lemma sorted_prefix_cycle_free:
  assumes wf: "wf_graph g" and sp: "sorted_prefix g T"
    and p: "(a, a) \<in> (set (edges g))\<^sup>+"
  shows "a \<notin> set T"
proof
  assume "a \<in> set T"
  then have "before T a a" by (rule sorted_prefix_path_before [OF wf sp p])
  moreover have "distinct T" using sp by (simp add: sorted_prefix_def)
  ultimately show False by (simp add: before_irrefl)
qed

lemma sorted_prefix_complete_acyclic:
  assumes wf: "wf_graph g" and sp: "sorted_prefix g T" and all: "set T = nodes g"
  shows "acyclic (set (edges g))"
  unfolding acyclic_def
proof (intro allI notI)
  fix a assume p: "(a, a) \<in> (set (edges g))\<^sup>+"
  then obtain c where "(a, c) \<in> set (edges g)"
    by (meson converse_tranclE)
  then have "a \<in> nodes g" by (rule wf_graph_nodes(1) [OF wf])
  with all sorted_prefix_cycle_free [OF wf sp p] show False by simp
qed

lemma sorted_prefix_incomplete_cyclic:
  assumes wf: "wf_graph g" and sp: "sorted_prefix g T" and ne: "set T \<noteq> nodes g"
  shows "\<not> acyclic (set (edges g))"
proof
  assume ac: "acyclic (set (edges g))"
  have "wf (set (edges g))"
    by (rule finite_acyclic_wf [OF _ ac]) simp
  let ?Q = "nodes g - set T"
  from sp ne obtain x where "x \<in> ?Q" by (auto simp: sorted_prefix_def)
  with \<open>wf (set (edges g))\<close> obtain z where z: "z \<in> ?Q"
    and min: "\<And>y. (y, z) \<in> set (edges g) \<Longrightarrow> y \<notin> ?Q"
    unfolding wf_eq_minimal by blast
  from z sp have "\<not> set (get_predecessors g z) \<subseteq> set T"
    unfolding sorted_prefix_def by blast
  then obtain y where y: "y \<in> set (get_predecessors g z)" "y \<notin> set T" by blast
  then have e: "(y, z) \<in> set (edges g)" by (simp add: wf_graph_predecessors [OF wf])
  then have "y \<in> nodes g" by (rule wf_graph_nodes(1) [OF wf])
  with y(2) min [OF e] show False by simp
qed

lemma sorted_prefix_length:
  assumes wf: "wf_graph g" and sp: "sorted_prefix g T"
  shows "length T \<le> card (nodes g)" and "length T < card (nodes g) \<longleftrightarrow> set T \<noteq> nodes g"
proof -
  have d: "distinct T" and s: "set T \<subseteq> nodes g" using sp by (simp_all add: sorted_prefix_def)
  have f: "finite (nodes g)" by (rule wf_graph_finite_nodes [OF wf])
  have c: "card (set T) = length T" using d by (rule distinct_card)
  show le: "length T \<le> card (nodes g)"
    using card_mono [OF f s] c by simp
  show "length T < card (nodes g) \<longleftrightarrow> set T \<noteq> nodes g"
  proof
    assume "length T < card (nodes g)"
    with c show "set T \<noteq> nodes g" by auto
  next
    assume "set T \<noteq> nodes g"
    with s have "set T \<subset> nodes g" by blast
    from psubset_card_mono [OF f this] c show "length T < card (nodes g)" by simp
  qed
qed

section \<open>The validator\<close>

text \<open>
  \<open>last_occurrence xs v i\<close>: \<open>i\<close> is the position of the last occurrence of \<open>v\<close> in \<open>xs\<close>.
  In a sequence without duplicates it is the position of \<open>v\<close>.
\<close>

definition last_occurrence :: "'a list \<Rightarrow> 'a \<Rightarrow> nat \<Rightarrow> bool" where
  "last_occurrence xs v i \<longleftrightarrow>
     i < length xs \<and> xs ! i = v \<and> (\<forall>j. i < j \<and> j < length xs \<longrightarrow> xs ! j \<noteq> v)"

lemma index_of_snoc: "index_of (xs @ [x]) = fmupd x (length xs) (index_of xs)"
  by (simp add: index_of_def enumerate_append_eq)

lemma index_of_Nil: "index_of [] = fmempty"
  by (simp add: index_of_def)

lemma last_occurrence_snoc:
  "last_occurrence (xs @ [x]) v i \<longleftrightarrow>
     (if v = x then i = length xs else last_occurrence xs v i)"
proof (cases "v = x")
  case True
  show ?thesis
  proof
    assume l: "last_occurrence (xs @ [x]) v i"
    show "if v = x then i = length xs else last_occurrence xs v i"
    proof (rule ccontr)
      assume "\<not> ?thesis"
      with True l have "i < length xs" by (simp add: last_occurrence_def)
      with l have "(xs @ [x]) ! length xs \<noteq> v"
        unfolding last_occurrence_def by (metis length_append_singleton lessI)
      with True show False by simp
    qed
  next
    assume "if v = x then i = length xs else last_occurrence xs v i"
    with True show "last_occurrence (xs @ [x]) v i"
      by (auto simp: last_occurrence_def)
  qed
next
  case False
  have "last_occurrence (xs @ [x]) v i \<longleftrightarrow> last_occurrence xs v i"
  proof
    assume l: "last_occurrence (xs @ [x]) v i"
    then have i: "i < length xs"
      using False unfolding last_occurrence_def
      by (metis length_append_singleton less_antisym nth_append_length)
    show "last_occurrence xs v i"
      unfolding last_occurrence_def
    proof (intro conjI allI impI)
      show "i < length xs" by (rule i)
      show "xs ! i = v" using l i by (simp add: last_occurrence_def nth_append)
      fix j assume j: "i < j \<and> j < length xs"
      then have "(xs @ [x]) ! j \<noteq> v" using l by (simp add: last_occurrence_def)
      with j show "xs ! j \<noteq> v" by (simp add: nth_append)
    qed
  next
    assume l: "last_occurrence xs v i"
    show "last_occurrence (xs @ [x]) v i"
      unfolding last_occurrence_def
    proof (intro conjI allI impI)
      show "i < length (xs @ [x])" using l by (simp add: last_occurrence_def)
      show "(xs @ [x]) ! i = v" using l by (simp add: last_occurrence_def nth_append)
      fix j assume j: "i < j \<and> j < length (xs @ [x])"
      show "(xs @ [x]) ! j \<noteq> v"
      proof (cases "j < length xs")
        case True
        with l j show ?thesis by (simp add: last_occurrence_def nth_append)
      next
        case False
        with j have "j = length xs" by simp
        with \<open>v \<noteq> x\<close> show ?thesis by simp
      qed
    qed
  qed
  with False show ?thesis by simp
qed

lemma index_of_lookup: "fmlookup (index_of xs) v = Some i \<longleftrightarrow> last_occurrence xs v i"
proof (induction xs arbitrary: i rule: rev_induct)
  case Nil
  show ?case by (simp add: index_of_Nil last_occurrence_def)
next
  case (snoc x xs)
  show ?case
    by (auto simp: index_of_snoc last_occurrence_snoc snoc.IH)
qed

lemma index_of_dom: "fmdom' (index_of xs) = set xs"
  by (induction xs rule: rev_induct) (simp_all add: index_of_Nil index_of_snoc)

lemma last_occurrence_distinct:
  assumes "distinct xs"
  shows "last_occurrence xs v i \<longleftrightarrow> i < length xs \<and> xs ! i = v"
  unfolding last_occurrence_def using assms
  by (auto simp: nth_eq_iff_index_eq)

lemma last_occurrence_unique:
  assumes "last_occurrence xs v i" and "last_occurrence xs v j"
  shows "i = j"
proof (rule ccontr)
  assume "i \<noteq> j"
  then consider "i < j" | "j < i" by linarith
  then show False
    using assms unfolding last_occurrence_def by cases blast+
qed

lemma all_edges_ordered_eq:
  assumes "\<forall>(u, v) \<in> set es. u \<in> fmdom' index \<and> v \<in> fmdom' index"
  shows "all_edges_ordered index es =
           Inr (\<forall>(u, v) \<in> set es. \<exists>i j. fmlookup index u = Some i \<and> fmlookup index v = Some j \<and> i < j)"
  using assms
proof (induction es)
  case Nil
  show ?case by simp
next
  case (Cons e es)
  obtain u v where e: "e = (u, v)" by (cases e)
  with Cons.prems obtain i j where ij: "fmlookup index u = Some i" "fmlookup index v = Some j"
    by (auto simp: fmlookup_dom'_iff)
  from Cons have IH: "all_edges_ordered index es =
      Inr (\<forall>(u, v) \<in> set es. \<exists>i j. fmlookup index u = Some i \<and> fmlookup index v = Some j \<and> i < j)"
    by simp
  show ?case
    by (simp add: e ij IH)
qed

lemma is_topological_sort_eq:
  assumes wf: "wf_graph g"
  shows "is_topological_sort g (Sequence xs) =
           Inr (set xs = nodes g \<and>
                (\<forall>(u, v) \<in> set (edges g).
                   \<exists>i j. last_occurrence xs u i \<and> last_occurrence xs v j \<and> i < j))"
proof (cases "set xs = nodes g")
  case False
  then show ?thesis by (simp add: is_topological_sort_def get_nodes_def)
next
  case True
  have "\<forall>(u, v) \<in> set (edges g). u \<in> fmdom' (index_of xs) \<and> v \<in> fmdom' (index_of xs)"
    using wf_graph_nodes [OF wf] True by (auto simp: index_of_dom)
  from all_edges_ordered_eq [OF this] True show ?thesis
    by (simp add: is_topological_sort_def get_nodes_def get_edges_def index_of_lookup)
qed

text \<open>
  A one-shot iterator is used up by \<^verbatim>\<open>set(sequence)\<close>: the index dict is built empty, and the
  first subscript \<^verbatim>\<open>index[u]\<close> raises.
\<close>

lemma is_topological_sort_iterator:
  assumes "edges g \<noteq> []" and "set xs = nodes g"
  shows "is_topological_sort g (Iterator xs) = Inl KeyError"
proof -
  from assms(1) obtain u v es where "edges g = (u, v) # es"
    by (cases "edges g") auto
  with assms(2) show ?thesis
    by (simp add: is_topological_sort_def get_nodes_def get_edges_def index_of_def)
qed

section \<open>More on graphs built through the class\<close>

lemma count_list_distinct: "distinct xs \<Longrightarrow> x \<in> set xs \<Longrightarrow> count_list xs x = 1"
  by (induction xs) auto

lemma wf_graph_lookup_successors:
  assumes "wf_graph g" and "(u, v) \<in> set (edges g)"
  shows "fmlookup (successors g) u = Some (get_successors g u)"
proof -
  have "fst (u, v) \<in> fst ` set (edges g)" using assms(2) by (rule imageI)
  then have "u \<in> fmdom' (successors g)" using assms(1) by (auto simp: wf_graph_def)
  then show ?thesis by (auto simp: get_successors_def fmlookup_dom'_iff)
qed

lemma wf_graph_lookup_predecessors:
  assumes "wf_graph g" and "(u, v) \<in> set (edges g)"
  shows "fmlookup (predecessors g) v = Some (get_predecessors g v)"
proof -
  have "snd (u, v) \<in> snd ` set (edges g)" using assms(2) by (rule imageI)
  then have "v \<in> fmdom' (predecessors g)" using assms(1) by (auto simp: wf_graph_def)
  then show ?thesis by (auto simp: get_predecessors_def fmlookup_dom'_iff)
qed

text \<open>
  The representation invariants as the specification words them: for every edge \<open>(u, v)\<close> of
  the edge list, \<open>v\<close> is exactly once in \<^verbatim>\<open>successors[u]\<close> and \<open>u\<close> exactly once in
  \<^verbatim>\<open>predecessors[v]\<close>, and the node set is the set of the endpoints of the edge list.
\<close>

definition representation_invariant :: "'a DirectedGraph \<Rightarrow> bool" where
  "representation_invariant g \<longleftrightarrow>
     (\<forall>(u, v) \<in> set (edges g).
        (\<exists>su. fmlookup (successors g) u = Some su \<and> count_list su v = 1) \<and>
        (\<exists>pv. fmlookup (predecessors g) v = Some pv \<and> count_list pv u = 1)) \<and>
     nodes g = fst ` set (edges g) \<union> snd ` set (edges g)"

lemma wf_graph_representation_invariant:
  assumes wf: "wf_graph g"
  shows "representation_invariant g"
  unfolding representation_invariant_def
proof (intro conjI ballI)
  fix e assume e: "e \<in> set (edges g)"
  obtain u v where uv: "e = (u, v)" by (cases e)
  have "count_list (get_successors g u) v = 1"
    using e uv by (intro count_list_distinct wf_graph_distinct_successors [OF wf])
      (simp add: wf_graph_successors [OF wf])
  moreover have "count_list (get_predecessors g v) u = 1"
    using e uv by (intro count_list_distinct wf_graph_distinct_predecessors [OF wf])
      (simp add: wf_graph_predecessors [OF wf])
  ultimately show "case e of (u, v) \<Rightarrow>
        (\<exists>su. fmlookup (successors g) u = Some su \<and> count_list su v = 1) \<and>
        (\<exists>pv. fmlookup (predecessors g) v = Some pv \<and> count_list pv u = 1)"
    using wf_graph_lookup_successors [OF wf, of u v] wf_graph_lookup_predecessors [OF wf, of u v]
      e uv by simp
next
  show "nodes g = fst ` set (edges g) \<union> snd ` set (edges g)"
    using wf by (simp add: wf_graph_def)
qed

section \<open>Kahn's algorithm: the result\<close>

lemma sorted_prefix_complete_valid:
  assumes wf: "wf_graph g" and sp: "sorted_prefix g T" and all: "set T = nodes g"
  shows "is_topological_sort g (Sequence T) = Inr True"
    and "\<forall>(u, v) \<in> set (edges g). before T u v"
proof -
  have d: "distinct T" using sp by (simp add: sorted_prefix_def)
  show b: "\<forall>(u, v) \<in> set (edges g). before T u v"
  proof (intro ballI)
    fix e assume e: "e \<in> set (edges g)"
    obtain u v where uv: "e = (u, v)" by (cases e)
    have "v \<in> set T" using wf_graph_nodes(2) [OF wf, of u v] e uv all by simp
    then have "before T u v"
      using sorted_prefix_edge_before [OF wf sp, of u v] e uv by simp
    then show "case e of (u, v) \<Rightarrow> before T u v" by (simp add: uv)
  qed
  have "\<exists>i j. last_occurrence T u i \<and> last_occurrence T v j \<and> i < j"
    if "(u, v) \<in> set (edges g)" for u v
  proof -
    from b that have "before T u v" by blast
    then obtain i j where "i < j" "j < length T" "T ! i = u" "T ! j = v"
      unfolding before_def by blast
    then have "last_occurrence T u i \<and> last_occurrence T v j \<and> i < j"
      by (simp add: last_occurrence_distinct [OF d])
    then show ?thesis by blast
  qed
  then show "is_topological_sort g (Sequence T) = Inr True"
    using all by (auto simp: is_topological_sort_eq [OF wf])
qed

lemma kahns_algo_cases:
  assumes wf: "wf_graph g" and ns: "set ns = nodes g" "distinct ns"
  shows "\<exists>T. kahns_algo_loops ns g = Inr T \<and> sorted_prefix g T \<and>
           kahns_algo ns g = (if set T = nodes g then Inr T else Inl CycleDetectedError) \<and>
           (acyclic (set (edges g)) \<longleftrightarrow> set T = nodes g)"
proof -
  from kahns_algo_loops_sorted_prefix [OF wf ns] obtain T where
    T: "kahns_algo_loops ns g = Inr T" and sp: "sorted_prefix g T"
    by blast
  have "kahns_algo ns g = (if set T = nodes g then Inr T else Inl CycleDetectedError)"
    using sorted_prefix_length(2) [OF wf sp] by (simp add: kahns_algo_def T get_nodes_def)
  moreover have "acyclic (set (edges g)) \<longleftrightarrow> set T = nodes g"
    using sorted_prefix_complete_acyclic [OF wf sp] sorted_prefix_incomplete_cyclic [OF wf sp]
    by blast
  ultimately show ?thesis using T sp by blast
qed

text \<open>A graph for the examples.\<close>

lemma graph_012:
  "graph_of_calls [(0::int, 1), (0, 2), (1, 2)] =
    \<lparr>edges = [(0, 1), (0, 2), (1, 2)],
     successors = fmupd 1 [2] (fmupd 0 [1, 2] fmempty),
     predecessors = fmupd 2 [0, 1] (fmupd 1 [0] fmempty),
     nodes = {0, 1, 2}\<rparr>"
  by (simp add: graph_of_calls_def add_edge_def DirectedGraph_init_def fmupd_reorder_neq
      insert_commute)

section \<open>random\_dag: what the loops keep\<close>

lemma random_dag_inner_inv:
  assumes "wf_graph dag" and "distinct vs" and "\<forall>x\<in>set vs. (u, x) \<notin> set (edges dag)"
  shows "\<exists>dag' k'. random_dag_inner edge_threshold rnd u vs (dag, k) = Inr (dag', k') \<and>
           wf_graph dag' \<and> set (edges dag') \<subseteq> set (edges dag) \<union> {u} \<times> set vs"
  using assms
proof (induction vs arbitrary: dag k)
  case Nil
  then show ?case by simp
next
  case (Cons v vs)
  show ?case
  proof (cases "rnd k > edge_threshold")
    case False
    from Cons.IH [of dag "Suc k"] Cons.prems obtain dag' k' where
      "random_dag_inner edge_threshold rnd u vs (dag, Suc k) = Inr (dag', k')"
      "wf_graph dag'" "set (edges dag') \<subseteq> set (edges dag) \<union> {u} \<times> set vs"
      by auto
    with False show ?thesis by auto
  next
    case True
    have new: "v \<notin> set (get_successors dag u)"
      using Cons.prems by (simp add: wf_graph_successors)
    from add_edge_new [OF new] obtain dag1 where
      a: "add_edge dag u v = (Inr (), dag1)" and e1: "edges dag1 = edges dag @ [(u, v)]"
      by simp
    have wf1: "wf_graph dag1"
      using wf_graph_add_edge [OF Cons.prems(1), of u v] a by simp
    have "\<forall>x\<in>set vs. (u, x) \<notin> set (edges dag1)"
      using Cons.prems(2,3) by (auto simp: e1)
    with Cons.IH [of dag1 "Suc k"] wf1 Cons.prems(2) obtain dag' k' where
      r: "random_dag_inner edge_threshold rnd u vs (dag1, Suc k) = Inr (dag', k')"
      and w: "wf_graph dag'" and s: "set (edges dag') \<subseteq> set (edges dag1) \<union> {u} \<times> set vs"
      by auto
    have "random_dag_inner edge_threshold rnd u (v # vs) (dag, k) = Inr (dag', k')"
      using True a r by simp
    moreover have "set (edges dag') \<subseteq> set (edges dag) \<union> {u} \<times> set (v # vs)"
      using s by (auto simp: e1)
    ultimately show ?thesis using w by blast
  qed
qed

lemma random_dag_outer_inv:
  assumes "wf_graph dag" and "distinct us" and "\<forall>(a, b)\<in>set (edges dag). a \<notin> set us"
  shows "\<exists>dag' k'. random_dag_outer edge_threshold rnd n_nodes us (dag, k) = Inr (dag', k') \<and>
           wf_graph dag' \<and>
           set (edges dag') \<subseteq> set (edges dag) \<union> {(a, b). a \<in> set us \<and> a < b \<and> b < n_nodes}"
  using assms
proof (induction us arbitrary: dag k)
  case Nil
  then show ?case by simp
next
  case (Cons u us)
  have "\<forall>x\<in>set [u + 1..n_nodes - 1]. (u, x) \<notin> set (edges dag)"
    using Cons.prems(3) by auto
  from random_dag_inner_inv [OF Cons.prems(1) distinct_upto this, of edge_threshold rnd k]
  obtain dag1 k1 where
    r1: "random_dag_inner edge_threshold rnd u [u + 1..n_nodes - 1] (dag, k) = Inr (dag1, k1)"
    and w1: "wf_graph dag1"
    and s1: "set (edges dag1) \<subseteq> set (edges dag) \<union> {u} \<times> set [u + 1..n_nodes - 1]"
    by blast
  have "\<forall>(a, b)\<in>set (edges dag1). a \<notin> set us"
    using s1 Cons.prems(2,3) by auto
  with Cons.IH [of dag1 k1] w1 Cons.prems(2) obtain dag' k' where
    r: "random_dag_outer edge_threshold rnd n_nodes us (dag1, k1) = Inr (dag', k')"
    and w: "wf_graph dag'"
    and s: "set (edges dag') \<subseteq> set (edges dag1) \<union> {(a, b). a \<in> set us \<and> a < b \<and> b < n_nodes}"
    by auto
  have "random_dag_outer edge_threshold rnd n_nodes (u # us) (dag, k) = Inr (dag', k')"
    using r1 r by simp
  moreover have "set (edges dag') \<subseteq>
      set (edges dag) \<union> {(a, b). a \<in> set (u # us) \<and> a < b \<and> b < n_nodes}"
    using s s1 by auto
  ultimately show ?case using w by blast
qed

lemma random_dag_result:
  "\<exists>dag. random_dag n_nodes edge_threshold rnd = Inr dag \<and> wf_graph dag \<and>
     (\<forall>(u, v)\<in>set (edges dag). 0 \<le> u \<and> u < v \<and> v < n_nodes)"
proof -
  have "\<forall>(a, b)\<in>set (edges (DirectedGraph_init :: int DirectedGraph)). a \<notin> set [0..n_nodes - 1]"
    by (simp add: DirectedGraph_init_def)
  from random_dag_outer_inv [OF wf_graph_init distinct_upto this, of edge_threshold rnd n_nodes 0]
  obtain dag k where
    r: "random_dag_outer edge_threshold rnd n_nodes [0..n_nodes - 1] (DirectedGraph_init, 0) = Inr (dag, k)"
    and w: "wf_graph dag"
    and s: "set (edges dag) \<subseteq> set (edges (DirectedGraph_init :: int DirectedGraph)) \<union>
              {(a, b). a \<in> set [0..n_nodes - 1] \<and> a < b \<and> b < n_nodes}"
    by blast
  have "random_dag n_nodes edge_threshold rnd = Inr dag"
    by (simp add: random_dag_def r)
  moreover have "\<forall>(u, v)\<in>set (edges dag). 0 \<le> u \<and> u < v \<and> v < n_nodes"
    using s by (auto simp: DirectedGraph_init_def)
  ultimately show ?thesis using w by blast
qed

lemma increasing_path:
  assumes "\<forall>(u, v)\<in>r. u < (v::int)" and "(a, b) \<in> r\<^sup>+"
  shows "a < b"
  using assms(2)
proof (induction rule: trancl_induct)
  case (base y)
  with assms(1) show ?case by blast
next
  case (step y z)
  with assms(1) have "y < z" by blast
  with step.IH show ?case by simp
qed

lemma increasing_acyclic:
  assumes "\<forall>(u, v)\<in>r. u < (v::int)"
  shows "acyclic r"
  unfolding acyclic_def
proof (intro allI notI)
  fix x assume "(x, x) \<in> r\<^sup>+"
  from increasing_path [OF assms this] show False by simp
qed

lemma is_topological_sort_increasing:
  assumes wf: "wf_graph g" and inc: "\<forall>(u, v)\<in>set (edges g). u < (v::int)"
    and so: "sorted xs" and d: "distinct xs"
  shows "is_topological_sort g (Sequence xs) = Inr (set xs = nodes g)"
proof (cases "set xs = nodes g")
  case False
  then show ?thesis by (simp add: is_topological_sort_def get_nodes_def)
next
  case True
  have "\<exists>i j. last_occurrence xs u i \<and> last_occurrence xs v j \<and> i < j"
    if e: "(u, v) \<in> set (edges g)" for u v
  proof -
    from e inc have lt: "u < v" by blast
    from wf_graph_nodes [OF wf e] have "u \<in> set xs" and "v \<in> set xs"
      by (simp_all add: True)
    then obtain i j where
      i: "i < length xs" "xs ! i = u" and j: "j < length xs" "xs ! j = v"
      by (metis in_set_conv_nth)
    have "i < j"
    proof (rule ccontr)
      assume "\<not> i < j"
      then have "j \<le> i" by simp
      with so i(1) have "xs ! j \<le> xs ! i" by (simp add: sorted_iff_nth_mono)
      with i j lt show False by simp
    qed
    with i j have "last_occurrence xs u i \<and> last_occurrence xs v j \<and> i < j"
      by (simp add: last_occurrence_distinct [OF d])
    then show ?thesis by blast
  qed
  with True show ?thesis by (auto simp: is_topological_sort_eq [OF wf])
qed

lemma before_upto:
  assumes "0 \<le> u" and "u < v" and "v < n"
  shows "before [0..n - 1] u v"
  unfolding before_def
proof (intro exI conjI)
  show "nat u < nat v" using assms by simp
  show "nat v < length [0..n - 1]" using assms by simp
  show "[0..n - 1] ! nat u = u" using assms by (simp add: nth_upto)
  show "[0..n - 1] ! nat v = v" using assms by (simp add: nth_upto)
qed

section \<open>The claims\<close>

text \<open>
  Claim C8. For every node \<open>u\<close> with no recorded outgoing edge, a node that no call ever
  mentioned included, \<^verbatim>\<open>get_successors(u)\<close> returns the empty list; \<^verbatim>\<open>get_predecessors\<close> does
  the same for incoming edges. The first two conjuncts hold of every state \<open>g\<close> (a key that
  is missing from the dict gives the default \<^verbatim>\<open>[]\<close>); the others are about a graph built by
  any sequence \<open>cs\<close> of \<^verbatim>\<open>add_edge\<close> calls. Both functions return a list on every input:
  \<^verbatim>\<open>dict.get\<close> with a default does not raise.
\<close>

theorem get_successors_predecessors_empty:
  "(fmlookup (successors g) u = None \<longrightarrow> get_successors g u = []) \<and>
   (fmlookup (predecessors g) u = None \<longrightarrow> get_predecessors g u = []) \<and>
   ((\<forall>v. (u, v) \<notin> set (edges (graph_of_calls cs))) \<longrightarrow>
      get_successors (graph_of_calls cs) u = []) \<and>
   ((\<forall>v. (v, u) \<notin> set (edges (graph_of_calls cs))) \<longrightarrow>
      get_predecessors (graph_of_calls cs) u = []) \<and>
   (u \<notin> nodes (graph_of_calls cs) \<longrightarrow>
      get_successors (graph_of_calls cs) u = [] \<and> get_predecessors (graph_of_calls cs) u = [])"
proof -
  let ?g = "graph_of_calls cs"
  have wf: "wf_graph ?g" by (rule wf_graph_of_calls)
  have s: "get_successors ?g u = []" if "\<forall>v. (u, v) \<notin> set (edges ?g)"
  proof -
    have "set (get_successors ?g u) = {}"
      using that by (simp add: wf_graph_successors [OF wf])
    then show ?thesis by simp
  qed
  have p: "get_predecessors ?g u = []" if "\<forall>v. (v, u) \<notin> set (edges ?g)"
  proof -
    have "set (get_predecessors ?g u) = {}"
      using that by (simp add: wf_graph_predecessors [OF wf])
    then show ?thesis by simp
  qed
  have n: "(\<forall>v. (u, v) \<notin> set (edges ?g)) \<and> (\<forall>v. (v, u) \<notin> set (edges ?g))"
    if "u \<notin> nodes ?g"
    using that wf_graph_nodes [OF wf] by blast
  show ?thesis
    using s p n by (simp add: get_successors_def get_predecessors_def)
qed

theorem get_successors_predecessors_empty_witness:
  "get_successors (graph_of_calls [(0::int, 1)]) 1 = [] \<and>
   get_predecessors (graph_of_calls [(0::int, 1)]) 0 = [] \<and>
   get_successors (graph_of_calls [(0::int, 1)]) 7 = [] \<and>
   get_predecessors (graph_of_calls [(0::int, 1)]) 7 = [] \<and>
   fmlookup (successors (graph_of_calls [(0::int, 1)])) 7 = None \<and>
   7 \<notin> nodes (graph_of_calls [(0::int, 1)]) \<and>
   edges (graph_of_calls [(0::int, 1)]) = [(0, 1)]"
  using get_successors_predecessors_empty [of "graph_of_calls [(0::int, 1)]" 7 "[(0::int, 1)]"]
  by (simp add: graph_of_calls_def add_edge_def DirectedGraph_init_def get_successors_def
      get_predecessors_def)

text \<open>
  Claim C4. Calling \<^verbatim>\<open>add_edge(u, v)\<close> when the edge \<open>(u, v)\<close> is present raises the
  duplicate-edge error and leaves the whole state (edges, successors, predecessors, nodes)
  as it was. First conjunct: in every state that \<^verbatim>\<open>__init__\<close> and a sequence \<open>cs\<close> of
  \<^verbatim>\<open>add_edge\<close> calls can produce. Second conjunct: in any state \<open>g\<close> at all, a call that
  returned followed by the same call again: the second raises, in the state \<open>g1\<close> that the
  first one left.
\<close>

theorem add_edge_duplicate_unchanged:
  "((u, v) \<in> set (edges (graph_of_calls cs)) \<longrightarrow>
      add_edge (graph_of_calls cs) u v = (Inl DuplicateEdgeError, graph_of_calls cs)) \<and>
   (add_edge g u v = (Inr (), g1) \<longrightarrow> add_edge g1 u v = (Inl DuplicateEdgeError, g1))"
proof (intro conjI impI)
  let ?g = "graph_of_calls cs"
  have wf: "wf_graph ?g" by (rule wf_graph_of_calls)
  assume e: "(u, v) \<in> set (edges ?g)"
  then have "v \<in> set (get_successors ?g u)" by (simp add: wf_graph_successors [OF wf])
  moreover have "v \<in> fmdom' (predecessors ?g)"
    using wf_graph_lookup_predecessors [OF wf e] by (simp add: fmlookup_dom'_iff)
  ultimately show "add_edge ?g u v = (Inl DuplicateEdgeError, ?g)"
    by (rule add_edge_duplicate_state)
next
  assume a: "add_edge g u v = (Inr (), g1)"
  have new: "v \<notin> set (get_successors g u)"
  proof
    assume "v \<in> set (get_successors g u)"
    from add_edge_duplicate [OF this] a show False by simp
  qed
  from a have g1: "g1 = \<lparr>edges = edges g @ [(u, v)],
             successors = fmupd u (get_successors g u @ [v]) (successors g),
             predecessors = fmupd v (get_predecessors g v @ [u]) (predecessors g),
             nodes = insert v (insert u (nodes g))\<rparr>"
    by (simp add: add_edge_new [OF new])
  have "v \<in> set (get_successors g1 u)" by (simp add: g1 get_successors_def)
  moreover have "v \<in> fmdom' (predecessors g1)" by (simp add: g1)
  ultimately show "add_edge g1 u v = (Inl DuplicateEdgeError, g1)"
    by (rule add_edge_duplicate_state)
qed

theorem add_edge_duplicate_unchanged_witness:
  "(0, 1) \<in> set (edges (graph_of_calls [(0::int, 1)])) \<and>
   add_edge DirectedGraph_init (0::int) 1 = (Inr (), graph_of_calls [(0, 1)]) \<and>
   add_edge (graph_of_calls [(0::int, 1)]) 0 1 = (Inl DuplicateEdgeError, graph_of_calls [(0, 1)])"
  using add_edge_duplicate_unchanged [of 0 1 "[(0::int, 1)]" DirectedGraph_init "graph_of_calls [(0, 1)]"]
  by (simp add: graph_of_calls_def add_edge_def DirectedGraph_init_def)

text \<open>
  Claim C5. Every \<^verbatim>\<open>add_edge\<close> call, whether it returns or raises, keeps the representation
  invariants: they hold in the state after any sequence \<open>cs\<close> of calls, and in the state
  after one more call \<^verbatim>\<open>add_edge(u, v)\<close>, whatever its outcome.
\<close>

theorem add_edge_preserves_representation_invariant:
  "representation_invariant (graph_of_calls cs) \<and>
   representation_invariant (snd (add_edge (graph_of_calls cs) u v))"
  by (simp add: wf_graph_representation_invariant wf_graph_of_calls wf_graph_add_edge)

theorem add_edge_preserves_representation_invariant_witness:
  "representation_invariant (graph_of_calls [(0::int, 1), (1, 2), (0, 1)]) \<and>
   representation_invariant (snd (add_edge (graph_of_calls [(0::int, 1), (1, 2), (0, 1)]) 1 2)) \<and>
   representation_invariant (snd (add_edge (graph_of_calls [(0::int, 1), (1, 2), (0, 1)]) 2 0)) \<and>
   edges (graph_of_calls [(0::int, 1), (1, 2), (0, 1)]) = [(0, 1), (1, 2)] \<and>
   fst (add_edge (graph_of_calls [(0::int, 1), (1, 2), (0, 1)]) 1 2) = Inl DuplicateEdgeError \<and>
   fst (add_edge (graph_of_calls [(0::int, 1), (1, 2), (0, 1)]) 2 0) = Inr ()"
  using add_edge_preserves_representation_invariant [of "[(0::int, 1), (1, 2), (0, 1)]" 1 2]
    add_edge_preserves_representation_invariant [of "[(0::int, 1), (1, 2), (0, 1)]" 2 0]
  by (simp add: graph_of_calls_def add_edge_def DirectedGraph_init_def)

text \<open>
  Claim C10. With a node occurring twice in the candidate sequence, \<^verbatim>\<open>is_topological_sort\<close>
  compares the positions of the last occurrences. For every graph built by \<^verbatim>\<open>add_edge\<close> calls
  and every list \<open>xs\<close>, duplicates or not, the validator returns true exactly when the set
  of \<open>xs\<close> is the node set and, for every edge \<open>(u, v)\<close>, the last occurrence of \<open>u\<close> stands
  before the last occurrence of \<open>v\<close>; the index dict maps a node to its last position. For
  the graph with the one edge \<open>(0, 1)\<close> the validator accepts \<open>[1, 0, 1]\<close>, which has a
  duplicate and whose first occurrence of 1 stands before 0, and it rejects \<open>[0, 1, 0]\<close>,
  whose first occurrence of 0 stands before 1.
\<close>

theorem is_topological_sort_last_occurrence:
  "is_topological_sort (graph_of_calls cs) (Sequence xs) =
     Inr (set xs = nodes (graph_of_calls cs) \<and>
          (\<forall>(u, v) \<in> set (edges (graph_of_calls cs)).
             \<exists>i j. last_occurrence xs u i \<and> last_occurrence xs v j \<and> i < j)) \<and>
   (fmlookup (index_of xs) v = Some i \<longleftrightarrow> last_occurrence xs v i) \<and>
   is_topological_sort (graph_of_calls [(0::int, 1)]) (Sequence [1, 0, 1]) = Inr True \<and>
   is_topological_sort (graph_of_calls [(0::int, 1)]) (Sequence [0, 1, 0]) = Inr False \<and>
   nodes (graph_of_calls [(0::int, 1)]) = {0, 1} \<and>
   edges (graph_of_calls [(0::int, 1)]) = [(0, 1)] \<and>
   \<not> distinct [1, 0, 1::int] \<and>
   [1, 0, 1::int] ! 0 = 1 \<and> [1, 0, 1::int] ! 1 = 0"
proof -
  have "is_topological_sort (graph_of_calls [(0::int, 1)]) (Sequence [1, 0, 1]) = Inr True"
    by (simp add: is_topological_sort_def get_nodes_def get_edges_def index_of_def
        graph_of_calls_def add_edge_def DirectedGraph_init_def insert_commute)
  moreover have
    "is_topological_sort (graph_of_calls [(0::int, 1)]) (Sequence [0, 1, 0]) = Inr False"
    by (simp add: is_topological_sort_def get_nodes_def get_edges_def index_of_def
        graph_of_calls_def add_edge_def DirectedGraph_init_def insert_commute)
  moreover have "nodes (graph_of_calls [(0::int, 1)]) = {0, 1}"
    by (simp add: graph_of_calls_def add_edge_def DirectedGraph_init_def insert_commute)
  moreover have "edges (graph_of_calls [(0::int, 1)]) = [(0, 1)]"
    by (simp add: graph_of_calls_def add_edge_def DirectedGraph_init_def)
  ultimately show ?thesis
    by (simp add: index_of_lookup is_topological_sort_eq [OF wf_graph_of_calls])
qed

theorem is_topological_sort_last_occurrence_witness:
  "last_occurrence [2, 0, 1, 0::int] 0 3 \<and> last_occurrence [2, 0, 1, 0::int] 1 2 \<and>
   last_occurrence [2, 0, 1, 0::int] 2 0 \<and>
   fmlookup (index_of [2, 0, 1, 0::int]) 0 = Some 3 \<and>
   edges (graph_of_calls [(2::int, 0), (1, 0)]) = [(2, 0), (1, 0)] \<and>
   is_topological_sort (graph_of_calls [(2::int, 0), (1, 0)]) (Sequence [2, 0, 1, 0]) = Inr True"
proof -
  let ?xs = "[2, 0, 1, 0::int]"
  have l0: "last_occurrence ?xs 0 3"
    by (simp add: last_occurrence_def)
  have l1: "last_occurrence ?xs 1 2"
    by (auto simp: last_occurrence_def less_Suc_eq)
  have l2: "last_occurrence ?xs 2 0"
    by (auto simp: last_occurrence_def less_Suc_eq)
  have e: "edges (graph_of_calls [(2::int, 0), (1, 0)]) = [(2, 0), (1, 0)]"
    by (simp add: graph_of_calls_def add_edge_def DirectedGraph_init_def)
  have n: "set ?xs = nodes (graph_of_calls [(2::int, 0), (1, 0)])"
    by (auto simp: graph_of_calls_def add_edge_def DirectedGraph_init_def)
  have "\<exists>i j. last_occurrence ?xs 2 i \<and> last_occurrence ?xs 0 j \<and> i < j"
    using l2 l0 by (intro exI [of _ 0] exI [of _ 3]) simp
  moreover have "\<exists>i j. last_occurrence ?xs 1 i \<and> last_occurrence ?xs 0 j \<and> i < j"
    using l1 l0 by (intro exI [of _ 2] exI [of _ 3]) simp
  ultimately have
    "is_topological_sort (graph_of_calls [(2::int, 0), (1, 0)]) (Sequence ?xs) = Inr True"
    using is_topological_sort_last_occurrence [of "[(2::int, 0), (1, 0)]" ?xs 0 3] e n
    by simp
  with is_topological_sort_last_occurrence [of "[(2::int, 0), (1, 0)]" ?xs 0 3] l0 l1 l2 e
  show ?thesis by simp
qed

text \<open>
  Claim C3. The claim says that \<^verbatim>\<open>is_topological_sort\<close> never raises and returns true exactly
  when the node sets agree and every edge goes forward. Evaluated on the graph with the one
  edge \<open>(0, 1)\<close>: the list \<open>[0, 1]\<close> is accepted, but on a one-shot iterator over the same
  nodes, an input of the documented type \<^verbatim>\<open>iterable[node]\<close>, the first pass uses the iterator
  up, the index dict stays empty and \<^verbatim>\<open>index[u]\<close> raises \<open>KeyError\<close>.
\<close>

theorem is_topological_sort_iterator_raises:
  "is_topological_sort (graph_of_calls [(0::int, 1)]) (Iterator [0, 1]) = Inl KeyError \<and>
   is_topological_sort (graph_of_calls [(0::int, 1)]) (Sequence [0, 1]) = Inr True \<and>
   edges (graph_of_calls [(0::int, 1)]) = [(0, 1)] \<and>
   nodes (graph_of_calls [(0::int, 1)]) = set [0, 1]"
  by (simp add: is_topological_sort_def get_nodes_def get_edges_def index_of_def
      graph_of_calls_def add_edge_def DirectedGraph_init_def insert_commute)

text \<open>
  Claim C2. For every acyclic graph built by \<^verbatim>\<open>add_edge\<close> calls, and every order in which the
  first loop may visit the node set, \<^verbatim>\<open>kahns_algo\<close> (and \<^verbatim>\<open>topological_sort\<close>) returns a sequence
  that holds every node of the graph exactly once and in which, for every edge \<open>(u, v)\<close>,
  \<open>u\<close> stands before \<open>v\<close>; \<^verbatim>\<open>is_topological_sort\<close> accepts it.
\<close>

theorem kahns_algo_sorts:
  assumes "acyclic (set (edges (graph_of_calls cs)))"
    and "set node_order = nodes (graph_of_calls cs)" and "distinct node_order"
  shows "\<exists>top_sort.
           kahns_algo node_order (graph_of_calls cs) = Inr top_sort \<and>
           topological_sort node_order (graph_of_calls cs) = Inr top_sort \<and>
           distinct top_sort \<and> set top_sort = nodes (graph_of_calls cs) \<and>
           length top_sort = card (nodes (graph_of_calls cs)) \<and>
           (\<forall>(u, v) \<in> set (edges (graph_of_calls cs)). before top_sort u v) \<and>
           is_topological_sort (graph_of_calls cs) (Sequence top_sort) = Inr True"
proof -
  let ?g = "graph_of_calls cs"
  have wf: "wf_graph ?g" by (rule wf_graph_of_calls)
  from kahns_algo_cases [OF wf assms(2,3)] obtain T where
    l: "kahns_algo_loops node_order ?g = Inr T" and sp: "sorted_prefix ?g T"
    and k: "kahns_algo node_order ?g = (if set T = nodes ?g then Inr T else Inl CycleDetectedError)"
    and a: "acyclic (set (edges ?g)) \<longleftrightarrow> set T = nodes ?g"
    by blast
  from a assms(1) have all: "set T = nodes ?g" by simp
  have d: "distinct T" using sp by (simp add: sorted_prefix_def)
  have "length T = card (nodes ?g)"
    using distinct_card [OF d] all by simp
  with k all d sorted_prefix_complete_valid [OF wf sp all] show ?thesis
    by (simp add: topological_sort_def)
qed

theorem kahns_algo_sorts_witness:
  "acyclic (set (edges (graph_of_calls [(0::int, 1), (0, 2), (1, 2)]))) \<and>
   kahns_algo [2, 0, 1] (graph_of_calls [(0::int, 1), (0, 2), (1, 2)]) = Inr [0, 1, 2] \<and>
   is_topological_sort (graph_of_calls [(0::int, 1), (0, 2), (1, 2)]) (Sequence [0, 1, 2]) =
     Inr True"
proof -
  let ?g = "graph_of_calls [(0::int, 1), (0, 2), (1, 2)]"
  have ac: "acyclic (set (edges ?g))"
    by (simp add: graph_012 acyclic_insert rtrancl_insert wf_acyclic)
  have ns: "set [2, 0, 1] = nodes ?g" by (auto simp: graph_012)
  have d: "distinct [2, 0, 1::int]" by simp
  have e: "kahns_algo [2, 0, 1] ?g = Inr [0, 1, 2]" by code_simp
  from kahns_algo_sorts [OF ac ns d] e ac show ?thesis by auto
qed

text \<open>
  Claim C1. For every graph built by \<^verbatim>\<open>add_edge\<close> calls, and every order in which the first
  loop may visit the node set: \<^verbatim>\<open>kahns_algo\<close> raises the cycle error exactly when the graph
  has a directed cycle, it returns a sequence exactly when the graph has none, and the test
  it raises on (the output of the loops is shorter than the node count) holds exactly when
  the graph has a cycle. \<^verbatim>\<open>topological_sort\<close> is \<^verbatim>\<open>kahns_algo\<close>.
\<close>

theorem kahns_algo_raises_iff_cycle:
  assumes "set node_order = nodes (graph_of_calls cs)" and "distinct node_order"
  shows "(kahns_algo node_order (graph_of_calls cs) = Inl CycleDetectedError \<longleftrightarrow>
            \<not> acyclic (set (edges (graph_of_calls cs)))) \<and>
         ((\<exists>top_sort. kahns_algo node_order (graph_of_calls cs) = Inr top_sort) \<longleftrightarrow>
            acyclic (set (edges (graph_of_calls cs)))) \<and>
         (\<exists>top_sort. kahns_algo_loops node_order (graph_of_calls cs) = Inr top_sort \<and>
            (length top_sort < card (get_nodes (graph_of_calls cs)) \<longleftrightarrow>
               \<not> acyclic (set (edges (graph_of_calls cs))))) \<and>
         topological_sort node_order (graph_of_calls cs) = kahns_algo node_order (graph_of_calls cs)"
proof -
  let ?g = "graph_of_calls cs"
  have wf: "wf_graph ?g" by (rule wf_graph_of_calls)
  from kahns_algo_cases [OF wf assms] obtain T where
    l: "kahns_algo_loops node_order ?g = Inr T" and sp: "sorted_prefix ?g T"
    and k: "kahns_algo node_order ?g = (if set T = nodes ?g then Inr T else Inl CycleDetectedError)"
    and a: "acyclic (set (edges ?g)) \<longleftrightarrow> set T = nodes ?g"
    by blast
  have "length T < card (get_nodes ?g) \<longleftrightarrow> \<not> acyclic (set (edges ?g))"
    using sorted_prefix_length(2) [OF wf sp] a by (simp add: get_nodes_def)
  with l have "\<exists>top_sort. kahns_algo_loops node_order ?g = Inr top_sort \<and>
            (length top_sort < card (get_nodes ?g) \<longleftrightarrow> \<not> acyclic (set (edges ?g)))"
    by blast
  moreover have "kahns_algo node_order ?g = Inl CycleDetectedError \<longleftrightarrow> \<not> acyclic (set (edges ?g))"
    using k a by simp
  moreover have "(\<exists>top_sort. kahns_algo node_order ?g = Inr top_sort) \<longleftrightarrow> acyclic (set (edges ?g))"
    using k a by simp
  ultimately show ?thesis by (simp add: topological_sort_def)
qed

theorem kahns_algo_raises_iff_cycle_witness:
  "kahns_algo [0, 1] (graph_of_calls [(0::int, 1), (1, 0)]) = Inl CycleDetectedError \<and>
   \<not> acyclic (set (edges (graph_of_calls [(0::int, 1), (1, 0)])))"
proof -
  let ?g = "graph_of_calls [(0::int, 1), (1, 0)]"
  have ns: "set [0, 1] = nodes ?g"
    by (auto simp: graph_of_calls_def add_edge_def DirectedGraph_init_def)
  have d: "distinct [0, 1::int]" by simp
  have e: "kahns_algo [0, 1] ?g = Inl CycleDetectedError" by code_simp
  from kahns_algo_raises_iff_cycle [OF ns d] e show ?thesis by simp
qed

text \<open>
  Claim C7. \<^verbatim>\<open>add_edge(u, u)\<close> returns when the self-loop is not present yet (in any state
  \<open>g\<close>, and in particular in a graph built by \<^verbatim>\<open>add_edge\<close> calls whose edge list lacks it),
  and the edge list then holds \<open>(u, u)\<close>. On every built graph with a self-loop \<open>(u, u)\<close>,
  \<^verbatim>\<open>kahns_algo\<close> raises the cycle error, and \<open>u\<close> is not in the output of the loops: its
  tracked in-degree never reached zero, so it was never appended to \<^verbatim>\<open>zero_nodes\<close>.
\<close>

theorem self_loop_accepted_then_cycle_error:
  "(u \<notin> set (get_successors g u) \<longrightarrow>
      fst (add_edge g u u) = Inr () \<and> (u, u) \<in> set (edges (snd (add_edge g u u)))) \<and>
   ((u, u) \<notin> set (edges (graph_of_calls cs)) \<longrightarrow>
      fst (add_edge (graph_of_calls cs) u u) = Inr () \<and>
      (u, u) \<in> set (edges (snd (add_edge (graph_of_calls cs) u u)))) \<and>
   ((u, u) \<in> set (edges (graph_of_calls cs)) \<and>
    set node_order = nodes (graph_of_calls cs) \<and> distinct node_order \<longrightarrow>
      kahns_algo node_order (graph_of_calls cs) = Inl CycleDetectedError \<and>
      topological_sort node_order (graph_of_calls cs) = Inl CycleDetectedError \<and>
      (\<exists>top_sort. kahns_algo_loops node_order (graph_of_calls cs) = Inr top_sort \<and>
         u \<notin> set top_sort))"
proof (intro conjI impI)
  let ?g = "graph_of_calls cs"
  have wf: "wf_graph ?g" by (rule wf_graph_of_calls)
  {
    fix h :: "'a DirectedGraph"
    assume "u \<notin> set (get_successors h u)"
    then have "fst (add_edge h u u) = Inr () \<and> (u, u) \<in> set (edges (snd (add_edge h u u)))"
      by (simp add: add_edge_new)
  } note new = this
  {
    assume "u \<notin> set (get_successors g u)"
    then show "fst (add_edge g u u) = Inr ()" and "(u, u) \<in> set (edges (snd (add_edge g u u)))"
      using new by blast+
  }
  {
    assume "(u, u) \<notin> set (edges ?g)"
    then have "u \<notin> set (get_successors ?g u)" by (simp add: wf_graph_successors [OF wf])
    then show "fst (add_edge ?g u u) = Inr ()" and "(u, u) \<in> set (edges (snd (add_edge ?g u u)))"
      using new by blast+
  }
  {
    assume h: "(u, u) \<in> set (edges ?g) \<and> set node_order = nodes ?g \<and> distinct node_order"
    then have p: "(u, u) \<in> (set (edges ?g))\<^sup>+" by blast
    from h have ns: "set node_order = nodes ?g" "distinct node_order" by simp_all
    from kahns_algo_cases [OF wf ns] obtain T where
      l: "kahns_algo_loops node_order ?g = Inr T" and sp: "sorted_prefix ?g T"
      and k: "kahns_algo node_order ?g = (if set T = nodes ?g then Inr T else Inl CycleDetectedError)"
      by blast
    have uT: "u \<notin> set T" by (rule sorted_prefix_cycle_free [OF wf sp p])
    have "u \<in> nodes ?g" using h wf_graph_nodes(1) [OF wf] by blast
    with uT have "set T \<noteq> nodes ?g" by blast
    with k show c: "kahns_algo node_order ?g = Inl CycleDetectedError" by simp
    then show "topological_sort node_order ?g = Inl CycleDetectedError"
      by (simp add: topological_sort_def)
    show "\<exists>top_sort. kahns_algo_loops node_order ?g = Inr top_sort \<and> u \<notin> set top_sort"
      using l uT by blast
  }
qed

theorem self_loop_accepted_then_cycle_error_witness:
  "fst (add_edge (graph_of_calls [(0::int, 1)]) 5 5) = Inr () \<and>
   (5, 5) \<in> set (edges (graph_of_calls [(0::int, 1), (5, 5)])) \<and>
   kahns_algo [0, 1, 5] (graph_of_calls [(0::int, 1), (5, 5)]) = Inl CycleDetectedError"
proof -
  let ?g = "graph_of_calls [(0::int, 1), (5, 5)]"
  have g: "?g = \<lparr>edges = [(0, 1), (5, 5)],
     successors = fmupd 5 [5] (fmupd 0 [1] fmempty),
     predecessors = fmupd 5 [5] (fmupd 1 [0] fmempty),
     nodes = {0, 1, 5}\<rparr>"
    by (simp add: graph_of_calls_def add_edge_def DirectedGraph_init_def insert_commute)
  have 1: "(5, 5) \<in> set (edges ?g)" by (simp add: g)
  have 2: "set [0, 1, 5] = nodes ?g" by (simp add: g)
  have 3: "5 \<notin> set (get_successors (graph_of_calls [(0::int, 1)]) 5)"
    by (simp add: graph_of_calls_def add_edge_def DirectedGraph_init_def get_successors_def)
  from self_loop_accepted_then_cycle_error
    [of 5 "graph_of_calls [(0::int, 1)]" "[(0::int, 1), (5, 5)]" "[0, 1, 5]"] 1 2 3
  show ?thesis by simp
qed

text \<open>
  Claim C9. The loops of \<^verbatim>\<open>kahns_algo\<close> end on every graph built by \<^verbatim>\<open>add_edge\<close> calls, cyclic
  ones included (\<open>kahns_algo_while\<close> is a total function: its termination proof holds for
  every input), and they end without an error. The output has no node twice and only nodes
  of the graph, so it is never longer than the node count, and it is shorter exactly when
  a node is missing from it.
\<close>

theorem kahns_algo_loops_output_bounded:
  assumes "set node_order = nodes (graph_of_calls cs)" and "distinct node_order"
  shows "\<exists>top_sort.
           kahns_algo_loops node_order (graph_of_calls cs) = Inr top_sort \<and>
           distinct top_sort \<and> set top_sort \<subseteq> nodes (graph_of_calls cs) \<and>
           length top_sort \<le> card (get_nodes (graph_of_calls cs)) \<and>
           (length top_sort < card (get_nodes (graph_of_calls cs)) \<longleftrightarrow>
              set top_sort \<noteq> nodes (graph_of_calls cs))"
proof -
  let ?g = "graph_of_calls cs"
  have wf: "wf_graph ?g" by (rule wf_graph_of_calls)
  from kahns_algo_loops_sorted_prefix [OF wf assms] obtain T where
    l: "kahns_algo_loops node_order ?g = Inr T" and sp: "sorted_prefix ?g T"
    by blast
  have "distinct T" and "set T \<subseteq> nodes ?g" using sp by (simp_all add: sorted_prefix_def)
  with l sorted_prefix_length [OF wf sp] show ?thesis
    by (simp add: get_nodes_def)
qed

theorem kahns_algo_loops_output_bounded_witness:
  "kahns_algo_loops [0, 1, 2] (graph_of_calls [(0::int, 1), (1, 2), (2, 1)]) = Inr [0] \<and>
   card (get_nodes (graph_of_calls [(0::int, 1), (1, 2), (2, 1)])) = 3 \<and>
   set [0] \<noteq> nodes (graph_of_calls [(0::int, 1), (1, 2), (2, 1)])"
proof -
  let ?g = "graph_of_calls [(0::int, 1), (1, 2), (2, 1)]"
  have n: "nodes ?g = {0, 1, 2}"
    by (auto simp: graph_of_calls_def add_edge_def DirectedGraph_init_def)
  have ns: "set [0, 1, 2] = nodes ?g" by (simp add: n)
  have d: "distinct [0, 1, 2::int]" by simp
  have e: "kahns_algo_loops [0, 1, 2] ?g = Inr [0]" by code_simp
  have c: "card (get_nodes ?g) = 3" by (simp add: get_nodes_def n)
  from kahns_algo_loops_output_bounded [OF ns d] e c show ?thesis by simp
qed

text \<open>
  What holds of \<^verbatim>\<open>random_dag\<close> for every node count, threshold and outcome of the draws: it
  returns a graph (no call of \<^verbatim>\<open>add_edge\<close> raises) whose every edge \<open>(u, v)\<close> has
  \<open>0 \<le> u < v \<le> n_nodes - 1\<close>, so the graph is acyclic and every edge goes from an earlier
  to a later position of \<open>0, 1, ..., n_nodes - 1\<close>. The node set is the set of the endpoints
  of the drawn edges, and the validator accepts the index order exactly when that set is
  all of \<open>0..n_nodes - 1\<close>.
\<close>

lemma random_dag_edges_increasing:
  "\<exists>dag. random_dag n_nodes edge_threshold rnd = Inr dag \<and>
     (\<forall>(u, v)\<in>set (edges dag). 0 \<le> u \<and> u < v \<and> v < n_nodes) \<and>
     acyclic (set (edges dag)) \<and>
     nodes dag = fst ` set (edges dag) \<union> snd ` set (edges dag) \<and>
     nodes dag \<subseteq> {0..n_nodes - 1} \<and>
     (\<forall>(u, v)\<in>set (edges dag). before [0..n_nodes - 1] u v) \<and>
     is_topological_sort dag (Sequence [0..n_nodes - 1]) = Inr (nodes dag = {0..n_nodes - 1}) \<and>
     is_topological_sort dag (Sequence (sorted_list_of_set (nodes dag))) = Inr True"
proof -
  from random_dag_result [of n_nodes edge_threshold rnd] obtain dag where
    r: "random_dag n_nodes edge_threshold rnd = Inr dag" and wf: "wf_graph dag"
    and b: "\<forall>(u, v)\<in>set (edges dag). 0 \<le> u \<and> u < v \<and> v < n_nodes"
    by blast
  from b have inc: "\<forall>(u, v)\<in>set (edges dag). u < v" by blast
  have ac: "acyclic (set (edges dag))" by (rule increasing_acyclic [OF inc])
  have nd: "nodes dag = fst ` set (edges dag) \<union> snd ` set (edges dag)"
    using wf by (simp add: wf_graph_def)
  have n: "nodes dag \<subseteq> {0..n_nodes - 1}"
  proof
    fix x assume "x \<in> nodes dag"
    then have "x \<in> fst ` set (edges dag) \<union> snd ` set (edges dag)"
      by (simp add: nd)
    with b show "x \<in> {0..n_nodes - 1}" by fastforce
  qed
  have bf: "\<forall>(u, v)\<in>set (edges dag). before [0..n_nodes - 1] u v"
    using b before_upto by blast
  have v1: "is_topological_sort dag (Sequence [0..n_nodes - 1]) =
              Inr (nodes dag = {0..n_nodes - 1})"
    using is_topological_sort_increasing [OF wf inc sorted_upto distinct_upto, of 0 "n_nodes - 1"]
    by auto
  have f: "finite (nodes dag)" by (rule wf_graph_finite_nodes [OF wf])
  have v2: "is_topological_sort dag (Sequence (sorted_list_of_set (nodes dag))) = Inr True"
    using is_topological_sort_increasing [OF wf inc, of "sorted_list_of_set (nodes dag)"] f
    by simp
  from r b ac nd n bf v1 v2 show ?thesis by blast
qed

text \<open>
  Claim C6. The claim says that the index order \<open>0, 1, ..., N - 1\<close> is a valid topological
  order of the graph that \<^verbatim>\<open>random_dag\<close> produces. Evaluated at \<^verbatim>\<open>random_dag(1)\<close>, for every
  threshold and random source: no draw is made and the graph returned has no node at all
  (label 0 is the endpoint of no edge, although the docstring announces a graph
  \<^verbatim>\<open>with n_nodes nodes\<close>), so \<^verbatim>\<open>is_topological_sort\<close> rejects the index order \<open>[0]\<close> for it.
\<close>

theorem random_dag_index_order_rejected:
  "random_dag 1 edge_threshold rnd = Inr DirectedGraph_init \<and>
   nodes (DirectedGraph_init :: int DirectedGraph) = {} \<and>
   is_topological_sort (DirectedGraph_init :: int DirectedGraph) (Sequence [0]) = Inr False"
  by (simp add: random_dag_def is_topological_sort_def get_nodes_def DirectedGraph_init_def)

end
